theory Spec2Isabelle
  imports Main
begin

section \<open>Data model of pgexplode\<close>

text \<open>
  The graph built by \<^verbatim>\<open>build_graph\<close> is a Python dict from table name to
  \<^verbatim>\<open>{"pks": [...], "fks": {...}}\<close>, where \<^verbatim>\<open>fks\<close> is a dict from the referenced
  table to a list of \<^verbatim>\<open>(column_name, foreign_column_name, nullable)\<close> tuples.
  Python dicts iterate in insertion order and the code iterates over them, so both dicts
  are association lists here; \<open>map_of\<close> is the lookup \<^verbatim>\<open>d[k]\<close>.
\<close>

datatype error = KeyError | IndexError | ValueError | OutOfFuel

type_synonym fk_edge = "string \<times> string \<times> bool"

record table_info =
  pks :: "string list"
  fks :: "(string \<times> fk_edge list) list"

type_synonym graph = "(string \<times> table_info) list"

text \<open>One element of a join path: \<^verbatim>\<open>(parent, from_col, to_col)\<close>.\<close>

type_synonym hop = "string \<times> string \<times> string"

text \<open>\<^verbatim>\<open>d[k] = v\<close> on a dict: an existing key keeps its position, a new key goes last.\<close>

fun dict_set :: "('k \<times> 'v) list \<Rightarrow> 'k \<Rightarrow> 'v \<Rightarrow> ('k \<times> 'v) list" where
  "dict_set [] k v = [(k, v)]"
| "dict_set ((k', v') # kvs) k v =
     (if k' = k then (k, v) # kvs else (k', v') # dict_set kvs k v)"

section \<open>find\_joins\<close>

text \<open>
  \<^verbatim>\<open>
  def find_joins(table, root, graph, path=None):
      if table == root:
          return path
      if path is None:
          path = []
      candidates = []
      for parent, columns in graph[table]["fks"].items():
          if parent == table:
              continue
          for from_col, to_col, nullable in columns:
              if not nullable:
                  found = find_joins(parent, root, graph, path + [(parent, from_col, to_col)])
                  if found:
                      candidates.append(found)
      candidates.sort(key=len)
      return candidates[0] if candidates else None
  \<close>
  The recursion has no visited set, so it need not return. The first argument of the
  model is fuel: the number of nested calls allowed. \<open>Inl OutOfFuel\<close> says that the call
  had not returned within that depth (CPython gives up with a RecursionError at its
  recursion limit). \<open>Inl KeyError\<close> is the failed lookup \<^verbatim>\<open>graph[table]\<close>. An exception
  raised by a recursive call leaves both loops at once.
\<close>

text \<open>
  A path argument or result is \<^verbatim>\<open>None\<close> or a list. \<open>hops_of\<close> reads it as a list, as
  \<^verbatim>\<open>if path is None: path = []\<close> does; Python's truth test \<^verbatim>\<open>if joins:\<close> is
  \<open>hops_of joins \<noteq> []\<close>, since \<^verbatim>\<open>None\<close> and \<^verbatim>\<open>[]\<close> are both false.
\<close>

definition hops_of :: "hop list option \<Rightarrow> hop list" where
  "hops_of path = (case path of None \<Rightarrow> [] | Some p \<Rightarrow> p)"

text \<open>
  The inner loop, over the columns of one parent; \<open>call\<close> is the recursive call.
  \<^verbatim>\<open>if found: candidates.append(found)\<close> keeps the non-empty lists.
\<close>

fun columns_loop ::
  "(string \<Rightarrow> hop list \<Rightarrow> error + hop list option) \<Rightarrow> string \<Rightarrow> hop list \<Rightarrow>
   fk_edge list \<Rightarrow> hop list list \<Rightarrow> error + hop list list" where
  "columns_loop call parent path [] candidates = Inr candidates"
| "columns_loop call parent path ((from_col, to_col, nullable) # columns) candidates =
     (if \<not> nullable then
        (case call parent (path @ [(parent, from_col, to_col)]) of
           Inl e \<Rightarrow> Inl e
         | Inr found \<Rightarrow>
             columns_loop call parent path columns
               (if hops_of found \<noteq> [] then candidates @ [hops_of found] else candidates))
      else columns_loop call parent path columns candidates)"

text \<open>The outer loop, over the items of \<^verbatim>\<open>graph[table]["fks"]\<close>.\<close>

fun fks_loop ::
  "(string \<Rightarrow> hop list \<Rightarrow> error + hop list option) \<Rightarrow> string \<Rightarrow> hop list \<Rightarrow>
   (string \<times> fk_edge list) list \<Rightarrow> hop list list \<Rightarrow> error + hop list list" where
  "fks_loop call table path [] candidates = Inr candidates"
| "fks_loop call table path ((parent, columns) # items) candidates =
     (if parent = table then fks_loop call table path items candidates
      else (case columns_loop call parent path columns candidates of
              Inl e \<Rightarrow> Inl e
            | Inr candidates' \<Rightarrow> fks_loop call table path items candidates'))"

text \<open>
  \<^verbatim>\<open>candidates.sort(key=len)\<close> is a stable sort, as \<open>sort_key\<close> is; then
  \<^verbatim>\<open>candidates[0] if candidates else None\<close>.
\<close>

definition first_shortest :: "hop list list \<Rightarrow> hop list option" where
  "first_shortest candidates =
     (case sort_key length candidates of [] \<Rightarrow> None | c # _ \<Rightarrow> Some c)"

fun find_joins ::
  "nat \<Rightarrow> string \<Rightarrow> string \<Rightarrow> graph \<Rightarrow> hop list option \<Rightarrow> error + hop list option" where
  "find_joins 0 table root graph path = Inl OutOfFuel"
| "find_joins (Suc fuel) table root graph path =
     (if table = root then Inr path
      else (case map_of graph table of
              None \<Rightarrow> Inl KeyError
            | Some info \<Rightarrow>
                (case fks_loop (\<lambda>parent p. find_joins fuel parent root graph (Some p)) table
                        (hops_of path) (fks info) [] of
                   Inl e \<Rightarrow> Inl e
                 | Inr candidates \<Rightarrow> Inr (first_shortest candidates))))"


section \<open>table\_data\<close>

text \<open>
  \<^verbatim>\<open>
  async def table_data(db, graph, root, root_id):
      seen = set()
      while len(seen) < len(graph):
          for child, info in graph.items():
              if child in seen:
                  continue
              if set(info["fks"]).difference({child}) <= seen:
                  seen.add(child)
                  pk = info["pks"][0]
                  joins = find_joins(child, root, graph)
                  if joins:
                      parts = ["SELECT {}.* FROM {}".format(child, child)]
                      last = child
                      for parent, from_col, to_col in joins:
                          parts.append(
                              "JOIN {table} ON {on}".format(
                                  table=parent, on="{}.{} = {}.{}".format(last, from_col, parent, to_col)
                              )
                          )
                          last = parent
                      parts.append("WHERE {}.{} = {}".format(root, pk, root_id))
                      yield child, " ".join(parts)
                  elif child == root:
                      yield child, "SELECT * FROM {} WHERE {} = {}".format(root, pk, root_id)
                  else:
                      yield child, "SELECT * FROM {}".format(child)
  \<close>
  \<open>root_id\<close> is the text that \<^verbatim>\<open>format\<close> renders for the row id.
\<close>

text \<open>\<^verbatim>\<open>sep.join(parts)\<close>.\<close>

fun str_join :: "string \<Rightarrow> string list \<Rightarrow> string" where
  "str_join sep [] = []"
| "str_join sep [p] = p"
| "str_join sep (p # ps) = p @ sep @ str_join sep ps"

text \<open>The loop over \<^verbatim>\<open>joins\<close>; \<open>last_table\<close> is the variable \<^verbatim>\<open>last\<close>.\<close>

fun join_parts :: "string \<Rightarrow> hop list \<Rightarrow> string list" where
  "join_parts last_table [] = []"
| "join_parts last_table ((parent, from_col, to_col) # joins) =
     (''JOIN '' @ parent @ '' ON '' @ last_table @ ''.'' @ from_col @ '' = '' @ parent @ ''.'' @ to_col)
     # join_parts parent joins"

text \<open>The statement yielded for \<open>child\<close>, from \<^verbatim>\<open>if joins:\<close> to the last \<^verbatim>\<open>else\<close>.\<close>

definition select_statement ::
  "string \<Rightarrow> string \<Rightarrow> string \<Rightarrow> string \<Rightarrow> hop list option \<Rightarrow> string" where
  "select_statement child root root_id pk joins =
     (if hops_of joins \<noteq> [] then
        str_join '' ''
          ([''SELECT '' @ child @ ''.* FROM '' @ child]
           @ join_parts child (hops_of joins)
           @ [''WHERE '' @ root @ ''.'' @ pk @ '' = '' @ root_id])
      else if child = root then ''SELECT * FROM '' @ root @ '' WHERE '' @ pk @ '' = '' @ root_id
      else ''SELECT * FROM '' @ child)"

text \<open>
  A generator hands out its pairs one by one, so what it has yielded stays yielded when it
  later raises or never finishes. The model returns the pairs yielded so far together with
  how the run stood: \<open>None\<close> when the generator is exhausted, \<open>Some e\<close> when it raised
  \<open>e\<close>, \<open>Some OutOfFuel\<close> when it was still running.

  One pass of the \<^verbatim>\<open>for\<close> loop over \<^verbatim>\<open>graph.items()\<close>. \<^verbatim>\<open>info["pks"][0]\<close> raises
  IndexError on an empty list, after \<^verbatim>\<open>seen.add(child)\<close>.
\<close>

type_synonym yields = "(string \<times> string) list"

fun for_tables ::
  "nat \<Rightarrow> graph \<Rightarrow> string \<Rightarrow> string \<Rightarrow> (string \<times> table_info) list \<Rightarrow>
   string set \<Rightarrow> yields \<Rightarrow> (string set \<times> yields) \<times> error option" where
  "for_tables fuel graph root root_id [] seen out = ((seen, out), None)"
| "for_tables fuel graph root root_id ((child, info) # items) seen out =
     (if child \<in> seen then for_tables fuel graph root root_id items seen out
      else if set (map fst (fks info)) - {child} \<subseteq> seen then
        (case pks info of
           [] \<Rightarrow> ((insert child seen, out), Some IndexError)
         | pk # _ \<Rightarrow>
             (case find_joins fuel child root graph None of
                Inl e \<Rightarrow> ((insert child seen, out), Some e)
              | Inr joins \<Rightarrow>
                  for_tables fuel graph root root_id items (insert child seen)
                    (out @ [(child, select_statement child root root_id pk joins)])))
      else for_tables fuel graph root root_id items seen out)"

text \<open>
  The \<^verbatim>\<open>while len(seen) < len(graph)\<close> loop; \<open>passes\<close> bounds the number of passes the
  model follows, \<open>fuel\<close> is handed to \<open>find_joins\<close>.
\<close>

fun while_unseen ::
  "nat \<Rightarrow> nat \<Rightarrow> graph \<Rightarrow> string \<Rightarrow> string \<Rightarrow> string set \<Rightarrow> yields \<Rightarrow>
   yields \<times> error option" where
  "while_unseen 0 fuel graph root root_id seen out =
     (if card seen < length graph then (out, Some OutOfFuel) else (out, None))"
| "while_unseen (Suc passes) fuel graph root root_id seen out =
     (if card seen < length graph then
        (case for_tables fuel graph root root_id graph seen out of
           ((seen', out'), Some e) \<Rightarrow> (out', Some e)
         | ((seen', out'), None) \<Rightarrow> while_unseen passes fuel graph root root_id seen' out')
      else (out, None))"

definition table_data :: "nat \<Rightarrow> graph \<Rightarrow> string \<Rightarrow> string \<Rightarrow> yields \<times> error option" where
  "table_data fuel graph root root_id = while_unseen fuel fuel graph root root_id {} []"


section \<open>build\_graph\<close>

text \<open>
  \<^verbatim>\<open>
  async def build_graph(db, skip=None):
      graph = {}
      for row in await db.fetch(TABLE_SQL):
          if skip and row["table_name"] in skip:
              continue
          graph[row["table_name"]] = {"pks": row["pk_cols"], "fks": {}}
      for row in await db.fetch(FK_SQL):
          if skip and (row["table_name"] in skip or row["foreign_table_name"] in skip):
              continue
          graph[row["table_name"]]["fks"].setdefault(row["foreign_table_name"], []).append(
              (row["column_name"], row["foreign_column_name"], row["nullable"])
          )
      return graph
  \<close>
  The database is outside the program: the rows that the two queries return are the
  arguments of the model. A row of \<^verbatim>\<open>TABLE_SQL\<close> is \<^verbatim>\<open>(table_name, pk_cols)\<close>; a row of
  \<^verbatim>\<open>FK_SQL\<close> has the columns that the program reads.
\<close>

type_synonym table_row = "string \<times> string list"

record fk_row =
  constraint_name :: string
  table_name :: string
  column_name :: string
  foreign_table_name :: string
  foreign_column_name :: string
  nullable :: bool

text \<open>\<^verbatim>\<open>skip and x in skip\<close>: \<^verbatim>\<open>None\<close> and the empty collection are false.\<close>

definition in_skip :: "string set option \<Rightarrow> string \<Rightarrow> bool" where
  "in_skip skip x = (case skip of None \<Rightarrow> False | Some S \<Rightarrow> S \<noteq> {} \<and> x \<in> S)"

text \<open>The first loop.\<close>

fun table_pass :: "string set option \<Rightarrow> table_row list \<Rightarrow> graph \<Rightarrow> graph" where
  "table_pass skip [] graph = graph"
| "table_pass skip ((name, pk_cols) # rows) graph =
     (if in_skip skip name then table_pass skip rows graph
      else table_pass skip rows (dict_set graph name \<lparr>pks = pk_cols, fks = []\<rparr>))"

text \<open>\<^verbatim>\<open>d.setdefault(k, []).append(e)\<close>.\<close>

definition setdefault_append ::
  "(string \<times> fk_edge list) list \<Rightarrow> string \<Rightarrow> fk_edge \<Rightarrow> (string \<times> fk_edge list) list" where
  "setdefault_append d k e =
     (case map_of d k of
        None \<Rightarrow> dict_set d k [e]
      | Some es \<Rightarrow> dict_set d k (es @ [e]))"

text \<open>The second loop; \<^verbatim>\<open>graph[row["table_name"]]\<close> raises KeyError on a missing table.\<close>

fun fk_pass :: "string set option \<Rightarrow> fk_row list \<Rightarrow> graph \<Rightarrow> error + graph" where
  "fk_pass skip [] graph = Inr graph"
| "fk_pass skip (row # rows) graph =
     (if in_skip skip (table_name row) \<or> in_skip skip (foreign_table_name row)
      then fk_pass skip rows graph
      else (case map_of graph (table_name row) of
              None \<Rightarrow> Inl KeyError
            | Some info \<Rightarrow>
                fk_pass skip rows
                  (dict_set graph (table_name row)
                     (info\<lparr>fks := setdefault_append (fks info) (foreign_table_name row)
                                    (column_name row, foreign_column_name row, nullable row)\<rparr>))))"

definition build_graph ::
  "table_row list \<Rightarrow> fk_row list \<Rightarrow> string set option \<Rightarrow> error + graph" where
  "build_graph table_rows fk_rows skip = fk_pass skip fk_rows (table_pass skip table_rows [])"

section \<open>copy\_table and restore\_keys\<close>

text \<open>
  What the program does to the database is the list of statements it executes and the
  lines it prints, in order. \<^verbatim>\<open>print\<close> is recorded with its arguments and its
  \<^verbatim>\<open>end\<close> string.
\<close>

datatype pyval = Str string | Num int




text \<open>
  \<^verbatim>\<open>
  async def restore_keys(db, schema):
      for row in await db.fetch(FK_SQL):
          await db.execute(
              "ALTER TABLE {}.{} ADD CONSTRAINT {} FOREIGN KEY ({}) REFERENCES {}.{} ({})".format(
                  schema,
                  row["table_name"],
                  row["constraint_name"],
                  row["column_name"],
                  schema,
                  row["foreign_table_name"],
                  row["foreign_column_name"],
              )
          )
  \<close>
  The statements executed, given the rows that \<^verbatim>\<open>FK_SQL\<close> returns.
\<close>

definition restore_keys :: "string \<Rightarrow> fk_row list \<Rightarrow> string list" where
  "restore_keys schema rows =
     map (\<lambda>row. ''ALTER TABLE '' @ schema @ ''.'' @ table_name row
                 @ '' ADD CONSTRAINT '' @ constraint_name row
                 @ '' FOREIGN KEY ('' @ column_name row
                 @ '') REFERENCES '' @ schema @ ''.'' @ foreign_table_name row
                 @ '' ('' @ foreign_column_name row @ '')'') rows"


section \<open>explode\<close>

text \<open>
  \<^verbatim>\<open>
  async def explode(opts):
      db = await asyncpg.connect(database=opts.dbname)

      graph = await build_graph(db)
      pk = graph[opts.table]["pks"][0]

      if graph[opts.table]["fks"]:
          print("Warning: Root table has FK links!")

      where = ""
      params = []
      if opts.ids:
          in_clause = ", ".join("${}".format(i + 1) for i in range(len(opts.ids)))
          where = " WHERE {} IN ({})".format(pk, in_clause)
          params = [int(i) if i.isdigit() else i for i in opts.ids]

      for row in await db.fetch("SELECT * FROM {}{}".format(opts.table, where), *params):
          schema = row[opts.schema] if opts.schema else "{}_{}".format(opts.table, row[pk])

          await db.execute("DROP SCHEMA IF EXISTS {} CASCADE".format(schema))
          await db.execute("CREATE SCHEMA {}".format(schema))
          print("+", schema, flush=True)

          async for table, select in table_data(db, graph, opts.table, row[pk]):
              print("  ~", table, end=": ", flush=True)
              num = await copy_table(db, table, schema, select)
              print(num, flush=True)

          # TODO: create id sequences, update pk defaults
          await restore_keys(db, schema)

      await db.close()
  \<close>
  The answers of the database are a record: the rows of the two metadata queries (the
  same at every fetch, the program changes nothing in the public schema), the rows that
  \<^verbatim>\<open>db.fetch\<close> returns for a query on the root table and its arguments (a row maps a
  column to the text of its value), and the row count that the status of each
  \<^verbatim>\<open>INSERT\<close> reports, by schema and table. The engine is taken to accept every statement.
\<close>

type_synonym db_row = "(string \<times> string) list"

record database =
  table_rows :: "table_row list"
  fk_rows :: "fk_row list"
  fetch :: "string \<Rightarrow> pyval list \<Rightarrow> db_row list"
  inserted :: "string \<Rightarrow> string \<Rightarrow> int"

record opts =
  dbname :: string
  table :: string
  schema :: "string option"
  ids :: "string list option"




















section \<open>Notions of the specification\<close>

text \<open>
  A hop from table \<open>t\<close>: a non-nullable foreign key of \<open>t\<close> into another table, as the
  triple \<^verbatim>\<open>(parent_table, local_column, target_column)\<close>.
\<close>

definition is_hop :: "graph \<Rightarrow> string \<Rightarrow> hop \<Rightarrow> bool" where
  "is_hop g t h =
     (case h of (parent, from_col, to_col) \<Rightarrow>
        parent \<noteq> t \<and>
        (case map_of g t of
           None \<Rightarrow> False
         | Some info \<Rightarrow>
             (\<exists>(p, columns) \<in> set (fks info). p = parent \<and> (from_col, to_col, False) \<in> set columns)))"

text \<open>
  A chain of hops from \<open>t\<close> back to \<open>r\<close>: at least one hop, each hop leaving the table
  that the hop before it reached, the last hop reaching \<open>r\<close>.
\<close>

fun join_chain :: "graph \<Rightarrow> string \<Rightarrow> string \<Rightarrow> hop list \<Rightarrow> bool" where
  "join_chain g t r [] = False"
| "join_chain g t r [h] = (is_hop g t h \<and> fst h = r)"
| "join_chain g t r (h # hs) = (is_hop g t h \<and> join_chain g (fst h) r hs)"

text \<open>The non-nullable foreign-key relation between distinct tables.\<close>

definition nn_edges :: "graph \<Rightarrow> (string \<times> string) set" where
  "nn_edges g = {(t, p). \<exists>from_col to_col. is_hop g t (p, from_col, to_col)}"

text \<open>The foreign-key relation between distinct tables, nullable or not.\<close>

definition fk_edges :: "graph \<Rightarrow> (string \<times> string) set" where
  "fk_edges g =
     {(t, p). p \<noteq> t \<and> (\<exists>info. map_of g t = Some info \<and> p \<in> fst ` set (fks info))}"

text \<open>
  The invariants of the data model: the graph is a dict (no key twice), every table that
  a foreign key references is a key of the graph, every table has a primary-key column.
\<close>

definition is_dict :: "('k \<times> 'v) list \<Rightarrow> bool" where
  "is_dict d = distinct (map fst d)"

definition closed_graph :: "graph \<Rightarrow> bool" where
  "closed_graph g = (\<forall>(t, info) \<in> set g. \<forall>(p, columns) \<in> set (fks info). p \<in> fst ` set g)"

definition has_pks :: "graph \<Rightarrow> bool" where
  "has_pks g = (\<forall>(t, info) \<in> set g. pks info \<noteq> [])"

text \<open>\<open>t\<close> occurs before position \<open>i\<close> of the yielded list.\<close>

definition yielded_before :: "yields \<Rightarrow> nat \<Rightarrow> string \<Rightarrow> bool" where
  "yielded_before out i t = (t \<in> fst ` set (take i out))"

text \<open>
  The graph has the edge \<open>e\<close> from table \<open>t\<close> to table \<open>p\<close>:
  \<^verbatim>\<open>e in graph[t]["fks"][p]\<close>.
\<close>

definition has_edge :: "graph \<Rightarrow> string \<Rightarrow> string \<Rightarrow> fk_edge \<Rightarrow> bool" where
  "has_edge g t p e =
     (case map_of g t of
        None \<Rightarrow> False
      | Some info \<Rightarrow> (case map_of (fks info) p of None \<Rightarrow> False | Some es \<Rightarrow> e \<in> set es))"

text \<open>
  A row of \<^verbatim>\<open>FK_SQL\<close> that touches no excluded table, and the tuple that \<open>build_graph\<close>
  stores for a row.
\<close>

definition selected :: "string set option \<Rightarrow> fk_row \<Rightarrow> bool" where
  "selected skip row = (\<not> in_skip skip (table_name row) \<and> \<not> in_skip skip (foreign_table_name row))"

definition edge_of :: "fk_row \<Rightarrow> fk_edge" where
  "edge_of row = (column_name row, foreign_column_name row, nullable row)"








text \<open>
  The search of \<open>find_joins\<close> for the root \<open>r\<close> follows the non-nullable foreign keys into
  other tables and goes no further at the root: \<open>searched\<close> are the edges it follows,
  \<open>reached\<close> the tables it visits from \<open>t\<close>. \<open>search_ok\<close> says that every table visited is
  the root or a key of the graph and that none of them lies on a cycle of edges followed,
  that is, on a cycle of non-nullable foreign keys between distinct tables that does not
  pass through the root.
\<close>

definition searched :: "graph \<Rightarrow> string \<Rightarrow> (string \<times> string) set" where
  "searched g r = {(t, p). t \<noteq> r \<and> (t, p) \<in> nn_edges g}"

definition reached :: "graph \<Rightarrow> string \<Rightarrow> string \<Rightarrow> string set" where
  "reached g r t = (searched g r)\<^sup>* `` {t}"

definition search_ok :: "graph \<Rightarrow> string \<Rightarrow> string \<Rightarrow> bool" where
  "search_ok g r t =
     (reached g r t \<subseteq> insert r (fst ` set g) \<and>
      (\<forall>x \<in> reached g r t. (x, x) \<notin> (searched g r)\<^sup>+))"

section \<open>Example schemas\<close>

text \<open>
  The scenario of the specification: root table \<open>order\<close>, child table \<open>order_item\<close> with
  the non-nullable foreign key \<open>order_item.order_id\<close> into \<open>order.id\<close>, and the
  independent table \<open>country\<close>. Here \<open>order_item\<close> has the primary key \<open>item_id\<close>.
\<close>

definition shop_table_rows :: "table_row list" where
  "shop_table_rows = [(''order'', [''id'']), (''order_item'', [''item_id'']), (''country'', [''code''])]"

definition shop_fk_rows :: "fk_row list" where
  "shop_fk_rows =
     [\<lparr>constraint_name = ''order_item_order_id_fkey'', table_name = ''order_item'',
       column_name = ''order_id'', foreign_table_name = ''order'',
       foreign_column_name = ''id'', nullable = False\<rparr>]"

definition shop_graph :: graph where
  "shop_graph =
     [(''order'', \<lparr>pks = [''id''], fks = []\<rparr>),
      (''order_item'', \<lparr>pks = [''item_id''], fks = [(''order'', [(''order_id'', ''id'', False)])]\<rparr>),
      (''country'', \<lparr>pks = [''code''], fks = []\<rparr>)]"

text \<open>Table \<open>a\<close> reaches the root \<open>r\<close> directly and through \<open>b\<close>.\<close>

definition diamond_graph :: graph where
  "diamond_graph =
     [(''r'', \<lparr>pks = [''id''], fks = []\<rparr>),
      (''b'', \<lparr>pks = [''id''], fks = [(''r'', [(''r_id'', ''id'', False)])]\<rparr>),
      (''a'', \<lparr>pks = [''id''],
              fks = [(''b'', [(''b_id'', ''id'', False)]), (''r'', [(''r_id'', ''id'', False)])]\<rparr>)]"

text \<open>Tables \<open>a\<close> and \<open>b\<close> reference each other, not null; the root \<open>r\<close> is apart.\<close>

definition cycle_graph :: graph where
  "cycle_graph =
     [(''r'', \<lparr>pks = [''id''], fks = []\<rparr>),
      (''a'', \<lparr>pks = [''id''], fks = [(''b'', [(''b_id'', ''id'', False)])]\<rparr>),
      (''b'', \<lparr>pks = [''id''], fks = [(''a'', [(''a_id'', ''id'', False)])]\<rparr>)]"

text \<open>
  Table \<open>a\<close> references \<open>v\<close>, which the table query does not return (a view, or a table
  with a unique key and no primary key).
\<close>

definition view_table_rows :: "table_row list" where
  "view_table_rows = [(''a'', [''id''])]"

definition view_fk_rows :: "fk_row list" where
  "view_fk_rows =
     [\<lparr>constraint_name = ''a_v_id_fkey'', table_name = ''a'', column_name = ''v_id'',
       foreign_table_name = ''v'', foreign_column_name = ''id'', nullable = False\<rparr>]"

text \<open>A foreign key of table \<open>a\<close> into table \<open>b\<close>.\<close>

definition orphan_fk_rows :: "fk_row list" where
  "orphan_fk_rows =
     [\<lparr>constraint_name = ''a_b_id_fkey'', table_name = ''a'', column_name = ''b_id'',
       foreign_table_name = ''b'', foreign_column_name = ''id'', nullable = False\<rparr>]"






text \<open>
  Table \<open>a\<close> references, not null, the root \<open>r\<close> and a table \<open>v\<close> that the table query
  does not return.
\<close>

definition dangling_table_rows :: "table_row list" where
  "dangling_table_rows = [(''a'', [''id'']), (''r'', [''id''])]"

definition dangling_fk_rows :: "fk_row list" where
  "dangling_fk_rows =
     [\<lparr>constraint_name = ''a_v_id_fkey'', table_name = ''a'', column_name = ''v_id'',
       foreign_table_name = ''v'', foreign_column_name = ''id'', nullable = False\<rparr>,
      \<lparr>constraint_name = ''a_r_id_fkey'', table_name = ''a'', column_name = ''r_id'',
       foreign_table_name = ''r'', foreign_column_name = ''id'', nullable = False\<rparr>]"

definition dangling_graph :: graph where
  "dangling_graph =
     [(''a'', \<lparr>pks = [''id''],
              fks = [(''v'', [(''v_id'', ''id'', False)]), (''r'', [(''r_id'', ''id'', False)])]\<rparr>),
      (''r'', \<lparr>pks = [''id''], fks = []\<rparr>)]"

text \<open>The root \<open>r\<close> and table \<open>a\<close> reference each other, not null.\<close>

definition root_cycle_graph :: graph where
  "root_cycle_graph =
     [(''r'', \<lparr>pks = [''id''], fks = [(''a'', [(''a_id'', ''id'', False)])]\<rparr>),
      (''a'', \<lparr>pks = [''id''], fks = [(''r'', [(''r_id'', ''id'', False)])]\<rparr>)]"

text \<open>The graph that \<open>build_graph\<close> returns for \<open>view_table_rows\<close> and \<open>view_fk_rows\<close>.\<close>

definition view_graph :: graph where
  "view_graph = [(''a'', \<lparr>pks = [''id''], fks = [(''v'', [(''v_id'', ''id'', False)])]\<rparr>)]"

section \<open>Auxiliary notions for the proofs\<close>

text \<open>
  The hops that the two loops of \<open>find_joins\<close> visit from a table, in the order of the
  visit, and the candidates that the recursive calls contribute.
\<close>

definition parent_hops :: "string \<Rightarrow> fk_edge list \<Rightarrow> hop list" where
  "parent_hops parent columns =
     map (\<lambda>(fc, tc, nl). (parent, fc, tc)) (filter (\<lambda>(fc, tc, nl). \<not> nl) columns)"

fun nn_hops :: "string \<Rightarrow> (string \<times> fk_edge list) list \<Rightarrow> hop list" where
  "nn_hops t [] = []"
| "nn_hops t ((parent, columns) # items) =
     (if parent = t then nn_hops t items else parent_hops parent columns @ nn_hops t items)"

definition collect :: "(string \<Rightarrow> hop list \<Rightarrow> error + hop list option) \<Rightarrow> hop list \<Rightarrow> hop list \<Rightarrow> hop list list" where
  "collect call path hops =
     concat (map (\<lambda>h. case call (fst h) (path @ [h]) of
                         Inl e \<Rightarrow> []
                       | Inr found \<Rightarrow> if hops_of found \<noteq> [] then [hops_of found] else []) hops)"

text \<open>
  What \<open>table_data\<close> yields for a table: the statement built from the first primary-key
  column of the table and from what \<open>find_joins\<close> returned for it. \<open>ordered\<close> says that
  every table comes after the other tables it references.
\<close>

definition yield_of ::
  "nat \<Rightarrow> graph \<Rightarrow> string \<Rightarrow> string \<Rightarrow> (string \<times> table_info) list \<Rightarrow> string \<times> string \<Rightarrow> bool" where
  "yield_of fuel g root rid items y =
     (\<exists>info pk rest joins.
        (fst y, info) \<in> set items \<and> pks info = pk # rest \<and>
        find_joins fuel (fst y) root g None = Inr joins \<and>
        snd y = select_statement (fst y) root rid pk joins)"

definition ordered :: "graph \<Rightarrow> yields \<Rightarrow> bool" where
  "ordered g out =
     (\<forall>i < length out. \<forall>p. (fst (out ! i), p) \<in> fk_edges g \<longrightarrow> p \<in> fst ` set (take i out))"

text \<open>The calls of \<open>find_joins\<close> whose tree of recursive calls is finite and meets no missing table.\<close>

inductive search_ends :: "graph \<Rightarrow> string \<Rightarrow> string \<Rightarrow> bool" for g r where
  root: "search_ends g r r"
| step: "t \<noteq> r \<Longrightarrow> t \<in> fst ` set g \<Longrightarrow> (\<And>h. is_hop g t h \<Longrightarrow> search_ends g r (fst h)) \<Longrightarrow>
         search_ends g r t"

section \<open>Properties of find\_joins\<close>

lemma hops_of_simps [simp]: "hops_of None = []" "hops_of (Some p) = p"
  by (simp_all add: hops_of_def)

lemma hops_of_nonempty: "hops_of found \<noteq> [] \<longleftrightarrow> (\<exists>p. found = Some p \<and> p \<noteq> [])"
  by (cases found) auto

lemma parent_hops_Nil [simp]: "parent_hops parent [] = []"
  by (simp add: parent_hops_def)

lemma parent_hops_Cons [simp]:
  "parent_hops parent ((fc, tc, nl) # columns) =
     (if nl then parent_hops parent columns else (parent, fc, tc) # parent_hops parent columns)"
  by (simp add: parent_hops_def)

lemma collect_Nil [simp]: "collect call path [] = []"
  by (simp add: collect_def)

lemma collect_append [simp]: "collect call path (xs @ ys) = collect call path xs @ collect call path ys"
  by (simp add: collect_def)

lemma columns_loop_Inr:
  "columns_loop call parent path columns cands = Inr c \<longleftrightarrow>
     (\<forall>h \<in> set (parent_hops parent columns). \<exists>res. call (fst h) (path @ [h]) = Inr res) \<and>
     c = cands @ collect call path (parent_hops parent columns)"
proof (induction columns arbitrary: cands)
  case Nil
  then show ?case by auto
next
  case (Cons e columns)
  obtain fc tc nl where e: "e = (fc, tc, nl)" by (cases e)
  show ?case
  proof (cases nl)
    case True
    then show ?thesis using Cons.IH e by simp
  next
    case False
    show ?thesis
    proof (cases "call parent (path @ [(parent, fc, tc)])")
      case (Inl err)
      then show ?thesis using e False by auto
    next
      case (Inr found)
      then show ?thesis using e False Cons.IH
        by (cases found) (auto simp: collect_def)
    qed
  qed
qed

lemma fks_loop_Inr:
  "fks_loop call t path items cands = Inr c \<longleftrightarrow>
     (\<forall>h \<in> set (nn_hops t items). \<exists>res. call (fst h) (path @ [h]) = Inr res) \<and>
     c = cands @ collect call path (nn_hops t items)"
proof (induction items arbitrary: cands)
  case Nil
  then show ?case by auto
next
  case (Cons it items)
  obtain parent columns where it: "it = (parent, columns)" by (cases it)
  show ?case
  proof (cases "parent = t")
    case True
    then show ?thesis using Cons.IH it by simp
  next
    case False
    show ?thesis
    proof (cases "columns_loop call parent path columns cands")
      case (Inl err)
      then have "\<not> (\<exists>c. columns_loop call parent path columns cands = Inr c)" by simp
      then show ?thesis using it False Inl columns_loop_Inr[of call parent path columns cands]
        by (auto simp: ball_Un)
    next
      case (Inr c')
      then show ?thesis using it False Cons.IH[of c'] columns_loop_Inr[of call parent path columns cands c']
        by (auto simp: ball_Un)
    qed
  qed
qed

lemma parent_hops_iff:
  "(p, fc, tc) \<in> set (parent_hops p' columns) \<longleftrightarrow> p = p' \<and> (fc, tc, False) \<in> set columns"
  by (induction columns) (auto split: if_splits)

lemma nn_hops_iff:
  "h \<in> set (nn_hops t items) \<longleftrightarrow>
     fst h \<noteq> t \<and> (\<exists>(p, columns) \<in> set items. p = fst h \<and> (fst (snd h), snd (snd h), False) \<in> set columns)"
proof -
  obtain p fc tc where h: "h = (p, fc, tc)" by (cases h)
  have "(p, fc, tc) \<in> set (nn_hops t items) \<longleftrightarrow>
          p \<noteq> t \<and> (\<exists>(p', columns) \<in> set items. p' = p \<and> (fc, tc, False) \<in> set columns)"
    by (induction items) (auto simp: parent_hops_iff split: if_splits)
  then show ?thesis using h by simp
qed

lemma is_hop_iff:
  "is_hop g t h \<longleftrightarrow> (\<exists>info. map_of g t = Some info \<and> h \<in> set (nn_hops t (fks info)))"
  by (cases h) (auto simp: is_hop_def nn_hops_iff split: option.splits)

lemma join_chain_Cons:
  "join_chain g t r (h # hs) \<longleftrightarrow> is_hop g t h \<and> (if hs = [] then fst h = r else join_chain g (fst h) r hs)"
  by (cases hs) auto

lemma first_shortest_None: "first_shortest cands = None \<longleftrightarrow> cands = []"
proof -
  have "sort_key length cands = [] \<longleftrightarrow> cands = []"
    by (metis length_sort length_0_conv)
  then show ?thesis by (auto simp: first_shortest_def split: list.splits)
qed

lemma first_shortest_Some:
  assumes "first_shortest cands = Some c"
  shows "c \<in> set cands \<and> (\<forall>x \<in> set cands. length c \<le> length x)"
proof -
  from assms obtain cs where s: "sort_key length cands = c # cs"
    by (auto simp: first_shortest_def split: list.splits)
  have "set (c # cs) = set cands" using s by (metis set_sort)
  moreover have "sorted (map length (c # cs))" using s by (metis sorted_sort_key)
  ultimately show ?thesis by auto
qed

lemma collect_mem:
  "p \<in> set (collect call path hops) \<longleftrightarrow>
     p \<noteq> [] \<and> (\<exists>h \<in> set hops. call (fst h) (path @ [h]) = Inr (Some p))"
proof (induction hops)
  case Nil
  then show ?case by simp
next
  case (Cons h hops)
  have "collect call path (h # hops) = collect call path [h] @ collect call path hops"
    using collect_append[of call path "[h]" hops] by simp
  moreover have "p \<in> set (collect call path [h]) \<longleftrightarrow> p \<noteq> [] \<and> call (fst h) (path @ [h]) = Inr (Some p)"
    by (auto simp: collect_def hops_of_nonempty split: sum.splits)
  ultimately show ?case using Cons.IH by auto
qed

lemma find_joins_Suc_other:
  assumes "t \<noteq> r" "map_of g t = Some info"
  shows "find_joins (Suc n) t r g (Some path) = Inr res \<longleftrightarrow>
           (\<forall>h \<in> set (nn_hops t (fks info)). \<exists>x. find_joins n (fst h) r g (Some (path @ [h])) = Inr x) \<and>
           res = first_shortest (collect (\<lambda>parent p. find_joins n parent r g (Some p)) path (nn_hops t (fks info)))"
proof -
  let ?call = "\<lambda>parent p. find_joins n parent r g (Some p)"
  show ?thesis
  proof (cases "fks_loop ?call t path (fks info) []")
    case (Inl e)
    then have "\<not> (\<exists>c. fks_loop ?call t path (fks info) [] = Inr c)" by simp
    then show ?thesis using assms Inl fks_loop_Inr[of ?call t path "fks info" "[]"] by auto
  next
    case (Inr c)
    then show ?thesis using assms fks_loop_Inr[of ?call t path "fks info" "[]" c] by auto
  qed
qed

lemma find_joins_sound:
  "find_joins n t r g (Some path) = Inr res \<Longrightarrow>
     (if t = r then res = Some path
      else res = None \<or> (\<exists>c. res = Some (path @ c) \<and> join_chain g t r c))"
proof (induction n arbitrary: t path res)
  case 0
  then show ?case by simp
next
  case (Suc n)
  show ?case
  proof (cases "t = r")
    case True
    then show ?thesis using Suc.prems by simp
  next
    case False
    from Suc.prems False obtain info where info: "map_of g t = Some info"
      by (auto split: option.splits)
    let ?call = "\<lambda>parent p. find_joins n parent r g (Some p)"
    let ?cands = "collect ?call path (nn_hops t (fks info))"
    from Suc.prems have res: "res = first_shortest ?cands"
      using find_joins_Suc_other[OF False info] by blast
    show ?thesis
    proof (cases res)
      case None
      then show ?thesis using False by simp
    next
      case (Some p)
      then have "p \<in> set ?cands" using res first_shortest_Some by metis
      then obtain h where h: "h \<in> set (nn_hops t (fks info))" "p \<noteq> []"
        "find_joins n (fst h) r g (Some (path @ [h])) = Inr (Some p)"
        by (auto simp: collect_mem)
      have hop: "is_hop g t h" using h(1) info by (auto simp: is_hop_iff)
      have "\<exists>c. p = path @ c \<and> join_chain g t r c"
      proof (cases "fst h = r")
        case True
        then have "p = path @ [h]" using Suc.IH[OF h(3)] by simp
        moreover have "join_chain g t r [h]" using hop True by simp
        ultimately show ?thesis by blast
      next
        case False
        then obtain c where c: "p = (path @ [h]) @ c" "join_chain g (fst h) r c"
          using Suc.IH[OF h(3)] by auto
        then have "c \<noteq> []" by auto
        then have "join_chain g t r (h # c)" using hop c(2) by (simp add: join_chain_Cons)
        then show ?thesis using c(1) by auto
      qed
      then show ?thesis using False Some by simp
    qed
  qed
qed

lemma find_joins_None_path:
  "t \<noteq> r \<Longrightarrow> find_joins n t r g None = find_joins n t r g (Some [])"
  by (cases n) (auto split: option.splits)

lemma bound_all:
  "(\<And>x. x \<in> set xs \<Longrightarrow> \<exists>N. \<forall>n\<ge>N. Q x n) \<Longrightarrow> \<exists>M. \<forall>x \<in> set xs. \<forall>n\<ge>M. Q x (n::nat)"
proof (induction xs)
  case Nil
  then show ?case by simp
next
  case (Cons x xs)
  then obtain M where M: "\<forall>y \<in> set xs. \<forall>n\<ge>M. Q y n" by auto
  from Cons.prems obtain N where N: "\<forall>n\<ge>N. Q x n" by auto
  have "\<forall>y \<in> set (x # xs). \<forall>n\<ge>max M N. Q y n" using M N by auto
  then show ?case by blast
qed

lemma is_hop_key: "is_hop g t h \<Longrightarrow> t \<in> fst ` set g"
  by (auto simp: is_hop_def split: option.splits prod.splits dest!: map_of_SomeD intro: rev_image_eqI)

lemma is_hop_closed: "closed_graph g \<Longrightarrow> is_hop g t h \<Longrightarrow> fst h \<in> fst ` set g"
  by (cases h) (fastforce simp: is_hop_def closed_graph_def split: option.splits dest!: map_of_SomeD)

lemma is_hop_nn_edges: "is_hop g t h \<Longrightarrow> (t, fst h) \<in> nn_edges g"
  by (cases h) (auto simp: nn_edges_def)

lemma find_joins_root:
  "\<forall>n\<ge>Suc 0. \<forall>path. find_joins n r r g (Some path) = Inr (Some path)"
proof (intro allI impI)
  fix n :: nat and path
  assume "Suc 0 \<le> n"
  then obtain m where "n = Suc m" by (cases n) auto
  then show "find_joins n r r g (Some path) = Inr (Some path)" by simp
qed

lemma search_ends_complete:
  "search_ends g r t \<Longrightarrow>
     \<exists>N. \<forall>n\<ge>N. \<forall>path. \<exists>res. find_joins n t r g (Some path) = Inr res \<and>
        (t \<noteq> r \<longrightarrow> (\<forall>c. join_chain g t r c \<longrightarrow>
            (\<exists>c0. res = Some (path @ c0) \<and> length c0 \<le> length c)))"
proof (induction rule: search_ends.induct)
  case root
  show ?case using find_joins_root[of r g] by blast
next
  case (step t)
  note ne = step.hyps(1)
  from step.hyps(2) obtain info where info: "map_of g t = Some info"
    by (metis map_of_eq_None_iff not_Some_eq)
    let ?hops = "nn_hops t (fks info)"
    let ?Q = "\<lambda>h n. \<forall>path. \<exists>res. find_joins n (fst h) r g (Some path) = Inr res \<and>
          (fst h \<noteq> r \<longrightarrow> (\<forall>c. join_chain g (fst h) r c \<longrightarrow>
              (\<exists>c0. res = Some (path @ c0) \<and> length c0 \<le> length c)))"
    have hopsN: "\<exists>N. \<forall>n\<ge>N. ?Q h n" if "h \<in> set ?hops" for h
    proof -
      have hop: "is_hop g t h" using that info by (auto simp: is_hop_iff)
      then show ?thesis using step.IH[of h] by blast
    qed
    have "\<exists>M. \<forall>h \<in> set ?hops. \<forall>n\<ge>M. ?Q h n"
      by (rule bound_all) (rule hopsN)
    then obtain M where M: "\<forall>h \<in> set ?hops. \<forall>n\<ge>M. ?Q h n" ..
    have "\<forall>path. \<exists>res. find_joins n t r g (Some path) = Inr res \<and>
          (t \<noteq> r \<longrightarrow> (\<forall>c. join_chain g t r c \<longrightarrow>
              (\<exists>c0. res = Some (path @ c0) \<and> length c0 \<le> length c)))" if n: "Suc M \<le> n" for n
    proof
      fix path
      from n obtain m where m: "n = Suc m" "M \<le> m" by (cases n) auto
      let ?call = "\<lambda>parent p. find_joins m parent r g (Some p)"
      let ?cands = "collect ?call path ?hops"
      have Mm: "\<exists>res. find_joins m (fst h) r g (Some p) = Inr res \<and>
          (fst h \<noteq> r \<longrightarrow> (\<forall>c. join_chain g (fst h) r c \<longrightarrow>
              (\<exists>c0. res = Some (p @ c0) \<and> length c0 \<le> length c)))" if "h \<in> set ?hops" for h p
        using M that m(2) by simp
      have calls: "\<forall>h \<in> set ?hops. \<exists>x. find_joins m (fst h) r g (Some (path @ [h])) = Inr x"
      proof
        fix h assume "h \<in> set ?hops"
        from Mm[OF this, of "path @ [h]"] obtain res where "find_joins m (fst h) r g (Some (path @ [h])) = Inr res"
          by (elim exE conjE)
        then show "\<exists>x. find_joins m (fst h) r g (Some (path @ [h])) = Inr x" ..
      qed
      have ret: "find_joins n t r g (Some path) = Inr (first_shortest ?cands)"
        using find_joins_Suc_other[OF ne info, of m path "first_shortest ?cands"] calls m(1)
        by simp
      have "\<exists>c0. first_shortest ?cands = Some (path @ c0) \<and> length c0 \<le> length c"
        if chain: "join_chain g t r c" for c
      proof -
        from chain obtain h hs where c: "c = h # hs" by (cases c) auto
        have hop: "is_hop g t h" using chain c by (simp add: join_chain_Cons)
        then have hin: "h \<in> set ?hops" using info by (auto simp: is_hop_iff)
        from Mm[OF hin, of "path @ [h]"] obtain x where x: "find_joins m (fst h) r g (Some (path @ [h])) = Inr x"
          "fst h \<noteq> r \<longrightarrow> (\<forall>c'. join_chain g (fst h) r c' \<longrightarrow>
              (\<exists>c0. x = Some ((path @ [h]) @ c0) \<and> length c0 \<le> length c'))"
          by (elim exE conjE)
        have "\<exists>q. x = Some q \<and> q \<noteq> [] \<and> length q \<le> length path + length c"
        proof (cases "fst h = r")
          case True
          then have "x = Some (path @ [h])" using find_joins_sound[OF x(1)] by simp
          then show ?thesis using c by simp
        next
          case False
          then have "join_chain g (fst h) r hs" using chain c by (auto simp: join_chain_Cons split: if_splits)
          with x(2) False obtain c0 where "x = Some ((path @ [h]) @ c0)" "length c0 \<le> length hs"
            by blast
          then show ?thesis using c by simp
        qed
        then obtain q where q: "x = Some q" "q \<noteq> []" "length q \<le> length path + length c"
          by blast
        have qin: "q \<in> set ?cands" using q(1,2) x(1) hin by (auto simp: collect_mem)
        then have "?cands \<noteq> []" by auto
        then obtain p where p: "first_shortest ?cands = Some p"
          using first_shortest_None[of ?cands] by (cases "first_shortest ?cands") auto
        then have le: "length p \<le> length q" using first_shortest_Some[OF p] qin by blast
        from find_joins_sound[OF ret] ne p obtain c1 where "p = path @ c1" by auto
        then show ?thesis using p le q(3) by auto
      qed
      then show "\<exists>res. find_joins n t r g (Some path) = Inr res \<and>
          (t \<noteq> r \<longrightarrow> (\<forall>c. join_chain g t r c \<longrightarrow>
              (\<exists>c0. res = Some (path @ c0) \<and> length c0 \<le> length c)))"
        using ret by blast
    qed
  then show ?case by blast
qed

lemma find_joins_returns_ends:
  "find_joins n t r g (Some path) = Inr res \<Longrightarrow> search_ends g r t"
proof (induction n arbitrary: t path res)
  case 0
  then show ?case by simp
next
  case (Suc n)
  show ?case
  proof (cases "t = r")
    case True
    then show ?thesis by (simp add: search_ends.root)
  next
    case False
    from Suc.prems False obtain info where info: "map_of g t = Some info"
      by (auto split: option.splits)
    then have key: "t \<in> fst ` set g" by (metis map_of_eq_None_iff option.distinct(1))
    have calls: "\<forall>h \<in> set (nn_hops t (fks info)). \<exists>x. find_joins n (fst h) r g (Some (path @ [h])) = Inr x"
      using Suc.prems find_joins_Suc_other[OF False info] by blast
    have "search_ends g r (fst h)" if "is_hop g t h" for h
    proof -
      have "h \<in> set (nn_hops t (fks info))" using that info by (auto simp: is_hop_iff)
      with calls obtain x where "find_joins n (fst h) r g (Some (path @ [h])) = Inr x" by blast
      then show ?thesis by (rule Suc.IH)
    qed
    then show ?thesis using False key by (rule search_ends.step[rotated 2])
  qed
qed

lemma searched_hop: "(t, p) \<in> searched g r \<longleftrightarrow> t \<noteq> r \<and> (\<exists>fc tc. is_hop g t (p, fc, tc))"
  by (auto simp: searched_def nn_edges_def)

lemma is_hop_searched: "is_hop g t h \<Longrightarrow> t \<noteq> r \<Longrightarrow> (t, fst h) \<in> searched g r"
  by (cases h) (auto simp: searched_hop)

lemma search_ends_reached:
  assumes "(t, x) \<in> (searched g r)\<^sup>*" and "search_ends g r t"
  shows "search_ends g r x"
  using assms
proof (induction rule: converse_rtrancl_induct)
  case base
  then show ?case .
next
  case (step t y)
  from step.hyps(1) obtain fc tc where ne: "t \<noteq> r" and hop: "is_hop g t (y, fc, tc)"
    by (auto simp: searched_hop)
  from step.prems have "search_ends g r (fst (y, fc, tc))"
  proof (cases rule: search_ends.cases)
    case root
    then show ?thesis using ne by simp
  next
    case step
    then show ?thesis using hop by blast
  qed
  then show ?case using step.IH by simp
qed

lemma search_ends_no_cycle: "search_ends g r x \<Longrightarrow> (x, x) \<notin> (searched g r)\<^sup>+"
proof (induction rule: search_ends.induct)
  case root
  show ?case
  proof
    assume "(r, r) \<in> (searched g r)\<^sup>+"
    then obtain y where "(r, y) \<in> searched g r" by (auto dest: tranclD)
    then show False by (simp add: searched_hop)
  qed
next
  case (step t)
  show ?case
  proof
    assume "(t, t) \<in> (searched g r)\<^sup>+"
    then obtain y where y: "(t, y) \<in> searched g r" "(y, t) \<in> (searched g r)\<^sup>*"
      by (auto dest: tranclD)
    then have cyc: "(y, y) \<in> (searched g r)\<^sup>+" by (rule rtrancl_into_trancl1[rotated])
    from y(1) obtain fc tc where "is_hop g t (y, fc, tc)" by (auto simp: searched_hop)
    from step.IH[OF this] cyc show False by simp
  qed
qed

lemma search_ends_key: "search_ends g r x \<Longrightarrow> x = r \<or> x \<in> fst ` set g"
  by (auto elim: search_ends.cases)

lemma search_ends_ok: "search_ends g r t \<Longrightarrow> search_ok g r t"
  unfolding search_ok_def reached_def
  using search_ends_reached[of t _ g r] search_ends_no_cycle[of g r] search_ends_key[of g r]
  by auto

lemma search_ok_ends:
  assumes "search_ok g r t"
  shows "search_ends g r t"
proof -
  let ?S = "searched g r"
  let ?W = "reached g r t"
  let ?R = "?S \<inter> (?W \<times> ?W)"
  have fin: "finite ?R"
  proof -
    have "finite ?W" using assms by (auto simp: search_ok_def intro: finite_subset)
    then show ?thesis by simp
  qed
  have acyc: "acyclic ?R"
    unfolding acyclic_def
  proof (intro allI notI)
    fix x assume x: "(x, x) \<in> ?R\<^sup>+"
    then have "(x, x) \<in> ?S\<^sup>+" by (rule trancl_mono) simp
    moreover from x obtain y where "(x, y) \<in> ?R" by (auto dest: tranclD)
    then have "x \<in> ?W" by simp
    ultimately show False using assms by (auto simp: search_ok_def)
  qed
  have wf: "wf (?R\<inverse>)" using fin acyc by (rule finite_acyclic_wf_converse)
  have "x \<in> ?W \<Longrightarrow> search_ends g r x" for x
    using wf
  proof (induction x rule: wf_induct_rule)
    case (less x)
    show ?case
    proof (cases "x = r")
      case True
      then show ?thesis by (simp add: search_ends.root)
    next
      case False
      have key: "x \<in> fst ` set g" using less.prems False assms by (auto simp: search_ok_def)
      have "search_ends g r (fst h)" if "is_hop g x h" for h
      proof -
        have e: "(x, fst h) \<in> ?S" using is_hop_searched[OF that False] .
        have "(t, x) \<in> ?S\<^sup>*" using less.prems by (simp add: reached_def)
        then have "(t, fst h) \<in> ?S\<^sup>*" using e by (rule rtrancl_into_rtrancl)
        then have w: "fst h \<in> ?W" by (simp add: reached_def)
        then have "(fst h, x) \<in> ?R\<inverse>" using e less.prems by simp
        from less.IH[OF this w] show ?thesis .
      qed
      then show ?thesis using False key by (rule search_ends.step[rotated 2])
    qed
  qed
  moreover have "t \<in> ?W" by (simp add: reached_def)
  ultimately show ?thesis by blast
qed

lemma search_ok_iff_returns:
  "search_ok g r t \<longleftrightarrow> (\<exists>fuel res. find_joins fuel t r g None = Inr res)"
proof
  assume "search_ok g r t"
  then have "search_ends g r t" by (rule search_ok_ends)
  from search_ends_complete[OF this] obtain N where
    N: "\<forall>n\<ge>N. \<forall>path. \<exists>res. find_joins n t r g (Some path) = Inr res \<and>
        (t \<noteq> r \<longrightarrow> (\<forall>c. join_chain g t r c \<longrightarrow>
            (\<exists>c0. res = Some (path @ c0) \<and> length c0 \<le> length c)))" ..
  show "\<exists>fuel res. find_joins fuel t r g None = Inr res"
  proof (cases "t = r")
    case True
    have "find_joins (Suc 0) t r g None = Inr None" using True by simp
    then show ?thesis by blast
  next
    case False
    from N[rule_format, OF le_refl, of "[]"] obtain res where
      "find_joins N t r g (Some []) = Inr res" by (elim exE conjE)
    then show ?thesis using False by (auto simp: find_joins_None_path)
  qed
next
  assume "\<exists>fuel res. find_joins fuel t r g None = Inr res"
  then obtain fuel res where r: "find_joins fuel t r g None = Inr res" by blast
  show "search_ok g r t"
  proof (cases "t = r")
    case True
    then show ?thesis using search_ends_ok[OF search_ends.root] by simp
  next
    case False
    then have "find_joins fuel t r g (Some []) = Inr res" using r by (simp add: find_joins_None_path)
    then show ?thesis by (intro search_ends_ok find_joins_returns_ends)
  qed
qed

lemma find_joins_total:
  assumes "search_ok g r t"
  shows "\<exists>N. \<forall>n\<ge>N. \<exists>res. find_joins n t r g None = Inr res \<and>
           (case res of
              None \<Rightarrow> t = r \<or> (\<nexists>c. join_chain g t r c)
            | Some p \<Rightarrow> t \<noteq> r \<and> join_chain g t r p \<and>
                        (\<forall>c. join_chain g t r c \<longrightarrow> length p \<le> length c))"
proof -
  from search_ends_complete[OF search_ok_ends[OF assms]] obtain N where
    N: "\<forall>n\<ge>N. \<forall>path. \<exists>res. find_joins n t r g (Some path) = Inr res \<and>
        (t \<noteq> r \<longrightarrow> (\<forall>c. join_chain g t r c \<longrightarrow>
            (\<exists>c0. res = Some (path @ c0) \<and> length c0 \<le> length c)))" ..
  have "\<exists>res. find_joins n t r g None = Inr res \<and>
           (case res of
              None \<Rightarrow> t = r \<or> (\<nexists>c. join_chain g t r c)
            | Some p \<Rightarrow> t \<noteq> r \<and> join_chain g t r p \<and>
                        (\<forall>c. join_chain g t r c \<longrightarrow> length p \<le> length c))"
    if n: "max N 1 \<le> n" for n
  proof (cases "t = r")
    case True
    from n obtain m where "n = Suc m" by (cases n) auto
    then show ?thesis using True by simp
  next
    case False
    from n have "N \<le> n" by simp
    from N[rule_format, OF this, of "[]"] obtain res where
      res: "find_joins n t r g (Some []) = Inr res"
      "\<forall>c. join_chain g t r c \<longrightarrow> (\<exists>c0. res = Some ([] @ c0) \<and> length c0 \<le> length c)"
      using False by (elim exE conjE) simp
    have sound: "res = None \<or> (\<exists>c. res = Some ([] @ c) \<and> join_chain g t r c)"
      using find_joins_sound[OF res(1)] False by simp
    have "case res of
              None \<Rightarrow> t = r \<or> (\<nexists>c. join_chain g t r c)
            | Some p \<Rightarrow> t \<noteq> r \<and> join_chain g t r p \<and>
                        (\<forall>c. join_chain g t r c \<longrightarrow> length p \<le> length c)"
    proof (cases res)
      case None
      then show ?thesis using res(2) by auto
    next
      case (Some p)
      then show ?thesis using sound res(2) False by auto
    qed
    then show ?thesis using res(1) False by (auto simp: find_joins_None_path)
  qed
  then show ?thesis by blast
qed

lemma reached_subset:
  assumes "t \<in> A" and "\<And>x p. x \<in> A \<Longrightarrow> (x, p) \<in> searched g r \<Longrightarrow> p \<in> A"
  shows "reached g r t \<subseteq> A"
proof
  fix x assume "x \<in> reached g r t"
  then have "(t, x) \<in> (searched g r)\<^sup>*" by (simp add: reached_def)
  then show "x \<in> A" by (induction rule: rtrancl_induct) (use assms in auto)
qed

lemma searched_subset: "searched g r \<subseteq> nn_edges g"
  by (auto simp: searched_def)

lemma search_okI:
  assumes "reached g r t \<subseteq> insert r (fst ` set g)" and "acyclic (searched g r)"
  shows "search_ok g r t"
  using assms by (auto simp: search_ok_def acyclic_def)

lemma closed_reached:
  assumes "closed_graph g" and "t \<in> fst ` set g"
  shows "reached g r t \<subseteq> insert r (fst ` set g)"
proof (rule reached_subset)
  show "t \<in> insert r (fst ` set g)" using assms(2) by simp
next
  fix x p assume "(x, p) \<in> searched g r"
  then obtain fc tc where "is_hop g x (p, fc, tc)" by (auto simp: searched_hop)
  from is_hop_closed[OF assms(1) this] show "p \<in> insert r (fst ` set g)" by simp
qed

lemma find_joins_returns:
  assumes "closed_graph g" and "acyclic (nn_edges g)" and "t \<in> fst ` set g"
  shows "\<exists>N. \<forall>n\<ge>N. \<exists>res. find_joins n t r g None = Inr res"
proof -
  have "search_ok g r t"
    by (rule search_okI[OF closed_reached[OF assms(1,3)] acyclic_subset[OF assms(2) searched_subset]])
  from find_joins_total[OF this] show ?thesis by blast
qed


section \<open>The shortest join path\<close>

lemma join_chain_trancl: "join_chain g t r c \<Longrightarrow> (t, r) \<in> (nn_edges g)\<^sup>+"
proof (induction c arbitrary: t)
  case Nil
  then show ?case by simp
next
  case (Cons h hs)
  have e: "(t, fst h) \<in> nn_edges g" using Cons.prems is_hop_nn_edges by (simp add: join_chain_Cons)
  show ?case
  proof (cases "hs = []")
    case True
    then show ?thesis using Cons.prems e by auto
  next
    case False
    then have "(fst h, r) \<in> (nn_edges g)\<^sup>+" using Cons by (simp add: join_chain_Cons)
    then show ?thesis using e by (rule trancl_into_trancl2[rotated])
  qed
qed

lemma join_chain_key: "join_chain g t r c \<Longrightarrow> t \<in> fst ` set g"
  by (cases c) (auto simp: join_chain_Cons is_hop_key)

lemma acyclic_rankI:
  assumes "\<And>t p. (t, p) \<in> r \<Longrightarrow> f p < (f t :: nat)"
  shows "acyclic r"
proof -
  have "r\<inverse> \<subseteq> measure f" using assms by auto
  then have "wf (r\<inverse>)" by (rule wf_subset[OF wf_measure])
  then have "acyclic (r\<inverse>)" by (rule wf_acyclic)
  then show ?thesis by simp
qed

lemma nn_edges_subset: "nn_edges g \<subseteq> fk_edges g"
proof
  fix e assume "e \<in> nn_edges g"
  then obtain t p fc tc where e: "e = (t, p)" and hop: "is_hop g t (p, fc, tc)"
    by (auto simp: nn_edges_def)
  from hop obtain info columns where "p \<noteq> t" "map_of g t = Some info" "(p, columns) \<in> set (fks info)"
    by (auto simp: is_hop_def split: option.splits)
  then have "p \<noteq> t \<and> (\<exists>info. map_of g t = Some info \<and> p \<in> fst ` set (fks info))"
    by (metis fst_conv image_eqI)
  then show "e \<in> fk_edges g" using e by (simp add: fk_edges_def)
qed

lemma acyclic_nn_edges: "acyclic (fk_edges g) \<Longrightarrow> acyclic (nn_edges g)"
  by (rule acyclic_subset[OF _ nn_edges_subset])

lemma diamond_closed: "closed_graph diamond_graph"
  by (simp add: closed_graph_def diamond_graph_def)

lemma diamond_acyclic: "acyclic (nn_edges diamond_graph)"
proof (rule acyclic_rankI)
  fix t p
  assume "(t, p) \<in> nn_edges diamond_graph"
  then show "(if p = ''r'' then 0 else if p = ''b'' then 1 else 2)
           < (if t = ''r'' then 0 else if t = ''b'' then 1 else (2::nat))"
    by (auto simp: nn_edges_def is_hop_def diamond_graph_def split: if_splits)
qed

lemma diamond_chain:
  "join_chain diamond_graph ''a'' ''r'' [(''b'', ''b_id'', ''id''), (''r'', ''r_id'', ''id'')]"
  by (simp add: is_hop_def diamond_graph_def)

lemma shop_closed: "closed_graph shop_graph"
  by (simp add: closed_graph_def shop_graph_def)

lemma shop_acyclic: "acyclic (fk_edges shop_graph)"
proof (rule acyclic_rankI)
  fix t p
  assume "(t, p) \<in> fk_edges shop_graph"
  then show "(if p = ''order_item'' then 1 else 0) < (if t = ''order_item'' then 1 else (0::nat))"
    by (auto simp: fk_edges_def shop_graph_def split: if_splits)
qed

lemma shop_country_no_chain: "\<nexists>c. join_chain shop_graph ''country'' ''order'' c"
proof
  assume "\<exists>c. join_chain shop_graph ''country'' ''order'' c"
  then obtain c where c: "join_chain shop_graph ''country'' ''order'' c" ..
  then obtain h hs where "c = h # hs" by (cases c) auto
  with c have "is_hop shop_graph ''country'' h" by (simp add: join_chain_Cons)
  then show False by (cases h) (simp add: is_hop_def shop_graph_def)
qed

lemma diamond_reached: "reached diamond_graph ''r'' ''a'' \<subseteq> insert ''r'' (fst ` set diamond_graph)"
  by (rule closed_reached[OF diamond_closed]) (simp add: diamond_graph_def)

lemma dangling_build_graph:
  "build_graph dangling_table_rows dangling_fk_rows None = Inr dangling_graph"
  by (simp add: build_graph_def dangling_table_rows_def dangling_fk_rows_def dangling_graph_def
      in_skip_def setdefault_append_def)

lemma dangling_acyclic: "acyclic (nn_edges dangling_graph)"
proof (rule acyclic_rankI)
  fix t p
  assume "(t, p) \<in> nn_edges dangling_graph"
  then show "(if p = ''a'' then 1 else 0) < (if t = ''a'' then 1 else (0::nat))"
    by (auto simp: nn_edges_def is_hop_def dangling_graph_def split: if_splits)
qed

lemma dangling_find_joins:
  "find_joins fuel ''a'' ''r'' dangling_graph None =
     (if fuel < 2 then Inl OutOfFuel else Inl KeyError)"
proof (cases fuel)
  case 0
  then show ?thesis by simp
next
  case (Suc m)
  show ?thesis
  proof (cases m)
    case 0
    then show ?thesis using Suc by (simp add: dangling_graph_def)
  next
    case (Suc k)
    then show ?thesis using \<open>fuel = Suc m\<close> by (simp add: dangling_graph_def)
  qed
qed

lemma root_cycle_search_ok: "search_ok root_cycle_graph ''r'' ''a''"
proof (rule search_okI)
  show "reached root_cycle_graph ''r'' ''a'' \<subseteq> insert ''r'' (fst ` set root_cycle_graph)"
    by (rule reached_subset)
       (auto simp: root_cycle_graph_def searched_hop is_hop_def split: if_splits)
next
  show "acyclic (searched root_cycle_graph ''r'')"
  proof (rule acyclic_rankI)
    fix t p
    assume "(t, p) \<in> searched root_cycle_graph ''r''"
    then show "(if p = ''a'' then 1 else 0) < (if t = ''a'' then 1 else (0::nat))"
      by (auto simp: searched_hop is_hop_def root_cycle_graph_def split: if_splits)
  qed
qed

lemma cycle_not_search_ok: "\<not> search_ok cycle_graph ''r'' ''a''"
proof -
  have ab: "(''a'', ''b'') \<in> searched cycle_graph ''r''"
    by (simp add: searched_hop is_hop_def cycle_graph_def)
  have ba: "(''b'', ''a'') \<in> searched cycle_graph ''r''"
    by (simp add: searched_hop is_hop_def cycle_graph_def)
  have "(''a'', ''a'') \<in> (searched cycle_graph ''r'')\<^sup>+"
    using ab ba by (meson r_into_trancl' trancl_trans)
  moreover have "''a'' \<in> reached cycle_graph ''r'' ''a''" by (simp add: reached_def)
  ultimately show ?thesis by (auto simp: search_ok_def)
qed

lemma dangling_chain: "join_chain dangling_graph ''a'' ''r'' [(''r'', ''r_id'', ''id'')]"
  by (simp add: is_hop_def dangling_graph_def)

lemma dangling_reached:
  "\<not> reached dangling_graph ''r'' ''a'' \<subseteq> insert ''r'' (fst ` set dangling_graph)"
proof -
  have "is_hop dangling_graph ''a'' (''v'', ''v_id'', ''id'')"
    by (simp add: is_hop_def dangling_graph_def)
  then have "(''a'', ''v'') \<in> searched dangling_graph ''r''"
    by (auto simp: searched_def nn_edges_def)
  then have "''v'' \<in> reached dangling_graph ''r'' ''a''" by (auto simp: reached_def)
  moreover have "''v'' \<notin> insert ''r'' (fst ` set dangling_graph)" by (simp add: dangling_graph_def)
  ultimately show ?thesis by blast
qed

text \<open>
  Claim C1, as the code has it. Let the non-nullable foreign-key relation between distinct
  tables be acyclic, and let some chain of non-nullable hops lead from \<open>T\<close> back to \<open>R\<close>.
  If every table that the search from \<open>T\<close> visits (following the non-nullable foreign keys
  into other tables, no further than \<open>R\<close>) is \<open>R\<close> or a key of the graph, then \<open>find_joins\<close>
  returns, given enough fuel, such a chain (each hop a non-nullable foreign key of the table
  reached so far into another table, the last hop reaching \<open>R\<close>), and no chain from \<open>T\<close> to
  \<open>R\<close> has fewer hops. If the search visits a table that is neither, \<open>find_joins\<close> does not
  return, whatever the fuel.
\<close>

theorem find_joins_shortest_chain:
  assumes "acyclic (nn_edges g)" and "join_chain g T R c"
  shows "(reached g R T \<subseteq> insert R (fst ` set g) \<longrightarrow>
           (\<exists>N. \<forall>fuel\<ge>N. \<exists>p. find_joins fuel T R g None = Inr (Some p) \<and> join_chain g T R p \<and>
               (\<forall>c'. join_chain g T R c' \<longrightarrow> length p \<le> length c'))) \<and>
         (\<not> reached g R T \<subseteq> insert R (fst ` set g) \<longrightarrow>
           (\<forall>fuel. \<nexists>res. find_joins fuel T R g None = Inr res))"
proof (intro conjI impI)
  assume r: "reached g R T \<subseteq> insert R (fst ` set g)"
  have ok: "search_ok g R T"
    by (rule search_okI[OF r acyclic_subset[OF assms(1) searched_subset]])
  have ne: "T \<noteq> R" using join_chain_trancl[OF assms(2)] assms(1) by (auto simp: acyclic_def)
  from find_joins_total[OF ok] obtain N where
    N: "\<forall>n\<ge>N. \<exists>res. find_joins n T R g None = Inr res \<and>
           (case res of
              None \<Rightarrow> T = R \<or> (\<nexists>c. join_chain g T R c)
            | Some p \<Rightarrow> T \<noteq> R \<and> join_chain g T R p \<and>
                        (\<forall>c. join_chain g T R c \<longrightarrow> length p \<le> length c))" ..
  have "\<exists>p. find_joins fuel T R g None = Inr (Some p) \<and> join_chain g T R p \<and>
            (\<forall>c'. join_chain g T R c' \<longrightarrow> length p \<le> length c')" if "N \<le> fuel" for fuel
  proof -
    from N[rule_format, OF that] obtain res where
      res: "find_joins fuel T R g None = Inr res"
      "case res of
              None \<Rightarrow> T = R \<or> (\<nexists>c. join_chain g T R c)
            | Some p \<Rightarrow> T \<noteq> R \<and> join_chain g T R p \<and>
                        (\<forall>c. join_chain g T R c \<longrightarrow> length p \<le> length c)"
      by (elim exE conjE)
    show ?thesis
    proof (cases res)
      case None
      then show ?thesis using res(2) ne assms(2) by auto
    next
      case (Some p)
      then show ?thesis using res by auto
    qed
  qed
  then show "\<exists>N. \<forall>fuel\<ge>N. \<exists>p. find_joins fuel T R g None = Inr (Some p) \<and> join_chain g T R p \<and>
               (\<forall>c'. join_chain g T R c' \<longrightarrow> length p \<le> length c')" by blast
next
  assume "\<not> reached g R T \<subseteq> insert R (fst ` set g)"
  then have "\<not> search_ok g R T" by (simp add: search_ok_def)
  then show "\<forall>fuel. \<nexists>res. find_joins fuel T R g None = Inr res"
    using search_ok_iff_returns[of g R T] by blast
qed

theorem find_joins_shortest_chain_witness:
  "acyclic (nn_edges diamond_graph) \<and>
   join_chain diamond_graph ''a'' ''r'' [(''b'', ''b_id'', ''id''), (''r'', ''r_id'', ''id'')] \<and>
   reached diamond_graph ''r'' ''a'' \<subseteq> insert ''r'' (fst ` set diamond_graph) \<and>
   find_joins 3 ''a'' ''r'' diamond_graph None = Inr (Some [(''r'', ''r_id'', ''id'')]) \<and>
   (\<exists>N. \<forall>fuel\<ge>N. \<exists>p. find_joins fuel ''a'' ''r'' diamond_graph None = Inr (Some p) \<and>
        join_chain diamond_graph ''a'' ''r'' p \<and>
        (\<forall>c'. join_chain diamond_graph ''a'' ''r'' c' \<longrightarrow> length p \<le> length c')) \<and>
   acyclic (nn_edges dangling_graph) \<and>
   join_chain dangling_graph ''a'' ''r'' [(''r'', ''r_id'', ''id'')] \<and>
   \<not> reached dangling_graph ''r'' ''a'' \<subseteq> insert ''r'' (fst ` set dangling_graph) \<and>
   (\<forall>fuel. \<nexists>res. find_joins fuel ''a'' ''r'' dangling_graph None = Inr res)"
proof -
  have "find_joins 3 ''a'' ''r'' diamond_graph None = Inr (Some [(''r'', ''r_id'', ''id'')])"
    by (simp add: numeral_3_eq_3 diamond_graph_def first_shortest_def)
  then show ?thesis
    using find_joins_shortest_chain[OF diamond_acyclic diamond_chain]
      find_joins_shortest_chain[OF dangling_acyclic dangling_chain]
      diamond_reached diamond_acyclic diamond_chain dangling_acyclic dangling_chain dangling_reached
    by simp
qed

text \<open>
  Acyclicity and the existence of a chain are not enough. \<open>build_graph\<close> returns \<open>dangling_graph\<close>,
  whose non-nullable relation is acyclic and in which the chain \<open>[(r, r_id, id)]\<close> leads
  from \<open>a\<close> to \<open>r\<close>; the loop of \<open>find_joins\<close> also follows the foreign key into \<open>v\<close>, and the
  lookup \<^verbatim>\<open>graph["v"]\<close> raises KeyError.
\<close>

theorem find_joins_dangling_counterexample:
  "build_graph dangling_table_rows dangling_fk_rows None = Inr dangling_graph \<and>
   acyclic (nn_edges dangling_graph) \<and>
   join_chain dangling_graph ''a'' ''r'' [(''r'', ''r_id'', ''id'')] \<and>
   find_joins 2 ''a'' ''r'' dangling_graph None = Inl KeyError \<and>
   (\<forall>fuel. \<nexists>res. find_joins fuel ''a'' ''r'' dangling_graph None = Inr res)"
proof -
  have "join_chain dangling_graph ''a'' ''r'' [(''r'', ''r_id'', ''id'')]"
    by (simp add: is_hop_def dangling_graph_def)
  then show ?thesis
    using dangling_build_graph dangling_acyclic by (simp add: dangling_find_joins)
qed

text \<open>
  Claim C2, as the code has it. \<open>find_joins\<close> keeps no record of the tables on the current
  path. It returns, given enough fuel, exactly when the search from \<open>T\<close> visits only the
  root and keys of the graph and no table on a cycle of non-nullable foreign keys between
  distinct tables that does not pass through the root (a cycle through the root does no
  harm, the search stops there); it then returns \<^verbatim>\<open>None\<close> when no chain of non-nullable
  hops leads to the root. In every other case it returns at no depth.
\<close>

theorem find_joins_returns_iff:
  "(search_ok g R T \<longrightarrow>
      (\<exists>N. \<forall>fuel\<ge>N. \<exists>res. find_joins fuel T R g None = Inr res \<and>
          ((\<nexists>c. join_chain g T R c) \<longrightarrow> res = None))) \<and>
   (\<not> search_ok g R T \<longrightarrow> (\<forall>fuel. \<nexists>res. find_joins fuel T R g None = Inr res))"
proof
  show "search_ok g R T \<longrightarrow>
      (\<exists>N. \<forall>fuel\<ge>N. \<exists>res. find_joins fuel T R g None = Inr res \<and>
          ((\<nexists>c. join_chain g T R c) \<longrightarrow> res = None))"
  proof
    assume "search_ok g R T"
    from find_joins_total[OF this] obtain N where
      N: "\<forall>n\<ge>N. \<exists>res. find_joins n T R g None = Inr res \<and>
           (case res of
              None \<Rightarrow> T = R \<or> (\<nexists>c. join_chain g T R c)
            | Some p \<Rightarrow> T \<noteq> R \<and> join_chain g T R p \<and>
                        (\<forall>c. join_chain g T R c \<longrightarrow> length p \<le> length c))" ..
    have "\<exists>res. find_joins fuel T R g None = Inr res \<and>
          ((\<nexists>c. join_chain g T R c) \<longrightarrow> res = None)" if "N \<le> fuel" for fuel
    proof -
      from N[rule_format, OF that] obtain res where
        res: "find_joins fuel T R g None = Inr res"
        "case res of
              None \<Rightarrow> T = R \<or> (\<nexists>c. join_chain g T R c)
            | Some p \<Rightarrow> T \<noteq> R \<and> join_chain g T R p \<and>
                        (\<forall>c. join_chain g T R c \<longrightarrow> length p \<le> length c)"
        by (elim exE conjE)
      have "(\<nexists>c. join_chain g T R c) \<longrightarrow> res = None" using res(2) by (cases res) auto
      then show ?thesis using res(1) by blast
    qed
    then show "\<exists>N. \<forall>fuel\<ge>N. \<exists>res. find_joins fuel T R g None = Inr res \<and>
          ((\<nexists>c. join_chain g T R c) \<longrightarrow> res = None)" by blast
  qed
next
  show "\<not> search_ok g R T \<longrightarrow> (\<forall>fuel. \<nexists>res. find_joins fuel T R g None = Inr res)"
    using search_ok_iff_returns[of g R T] by blast
qed

theorem find_joins_returns_iff_witness:
  "search_ok root_cycle_graph ''r'' ''a'' \<and>
   find_joins 2 ''a'' ''r'' root_cycle_graph None = Inr (Some [(''r'', ''r_id'', ''id'')]) \<and>
   (\<exists>N. \<forall>fuel\<ge>N. \<exists>res. find_joins fuel ''a'' ''r'' root_cycle_graph None = Inr res \<and>
        ((\<nexists>c. join_chain root_cycle_graph ''a'' ''r'' c) \<longrightarrow> res = None)) \<and>
   \<not> search_ok cycle_graph ''r'' ''a'' \<and>
   (\<forall>fuel. \<nexists>res. find_joins fuel ''a'' ''r'' cycle_graph None = Inr res)"
proof -
  have e: "find_joins 2 ''a'' ''r'' root_cycle_graph None = Inr (Some [(''r'', ''r_id'', ''id'')])"
    by (simp add: numeral_2_eq_2 root_cycle_graph_def first_shortest_def)
  from find_joins_returns_iff[of root_cycle_graph "''r''" "''a''"]
       find_joins_returns_iff[of cycle_graph "''r''" "''a''"]
       root_cycle_search_ok cycle_not_search_ok e
  show ?thesis by blast
qed

text \<open>
  On a cycle of non-nullable foreign keys that does not pass through the root the
  recursion goes round for ever: in \<open>cycle_graph\<close>, where every referenced table is a key,
  the call for table \<open>a\<close> has not returned at any depth.
\<close>

lemma cycle_graph_loops:
  "find_joins n ''a'' ''r'' cycle_graph (Some p) = Inl OutOfFuel \<and>
   find_joins n ''b'' ''r'' cycle_graph (Some p) = Inl OutOfFuel"
proof (induction n arbitrary: p)
  case 0
  then show ?case by simp
next
  case (Suc n)
  then show ?case by (simp add: cycle_graph_def)
qed

theorem find_joins_cycle_counterexample:
  "\<forall>fuel. find_joins fuel ''a'' ''r'' cycle_graph None = Inl OutOfFuel"
proof
  fix fuel
  show "find_joins fuel ''a'' ''r'' cycle_graph None = Inl OutOfFuel"
    using cycle_graph_loops[of fuel "[]"] by (simp add: find_joins_None_path)
qed

section \<open>Properties of table\_data\<close>

lemma yield_of_mono: "set items \<subseteq> set items' \<Longrightarrow> yield_of fuel g root rid items y \<Longrightarrow> yield_of fuel g root rid items' y"
  unfolding yield_of_def by blast

lemma for_tables_yields:
  "for_tables fuel g root rid items seen out = ((seen', out'), st) \<Longrightarrow>
     \<exists>ys. out' = out @ ys \<and> (\<forall>y \<in> set ys. yield_of fuel g root rid items y)"
proof (induction items arbitrary: seen out)
  case Nil
  then show ?case by simp
next
  case (Cons it items)
  obtain child info where it: "it = (child, info)" by (cases it)
  have mono: "\<And>y. yield_of fuel g root rid items y \<Longrightarrow> yield_of fuel g root rid (it # items) y"
    by (rule yield_of_mono[of items]) auto
  show ?case
  proof (cases "child \<in> seen \<or> \<not> set (map fst (fks info)) - {child} \<subseteq> seen")
    case True
    then have "for_tables fuel g root rid items seen out = ((seen', out'), st)"
      using Cons.prems it by (auto split: if_splits)
    from Cons.IH[OF this] show ?thesis using mono by blast
  next
    case False
    show ?thesis
    proof (cases "pks info")
      case Nil
      then show ?thesis using Cons.prems it False by auto
    next
      case (Cons pk rest)
      show ?thesis
      proof (cases "find_joins fuel child root g None")
        case (Inl e)
        then show ?thesis using Cons.prems it False \<open>pks info = pk # rest\<close> by auto
      next
        case (Inr joins)
        let ?y = "(child, select_statement child root rid pk joins)"
        have "for_tables fuel g root rid items (insert child seen) (out @ [?y]) = ((seen', out'), st)"
          using Cons.prems it False \<open>pks info = pk # rest\<close> Inr by auto
        from Cons.IH[OF this] obtain ys where ys: "out' = (out @ [?y]) @ ys"
          "\<forall>y \<in> set ys. yield_of fuel g root rid items y" by blast
        have "yield_of fuel g root rid (it # items) ?y"
          using it \<open>pks info = pk # rest\<close> Inr by (auto simp: yield_of_def)
        then have "\<forall>y \<in> set (?y # ys). yield_of fuel g root rid (it # items) y"
          using ys(2) mono by auto
        then show ?thesis using ys(1) by (intro exI[of _ "?y # ys"]) simp
      qed
    qed
  qed
qed

lemma while_unseen_yields:
  "while_unseen passes fuel g root rid seen out = (out', st) \<Longrightarrow>
     \<exists>ys. out' = out @ ys \<and> (\<forall>y \<in> set ys. yield_of fuel g root rid g y)"
proof (induction passes arbitrary: seen out)
  case 0
  then show ?case by (auto split: if_splits)
next
  case (Suc passes)
  show ?case
  proof (cases "card seen < length g")
    case False
    then show ?thesis using Suc.prems by auto
  next
    case True
    obtain seen1 out1 st1 where ft: "for_tables fuel g root rid g seen out = ((seen1, out1), st1)"
      by (metis surj_pair)
    from for_tables_yields[OF ft] obtain ys1 where ys1: "out1 = out @ ys1"
      "\<forall>y \<in> set ys1. yield_of fuel g root rid g y" by blast
    show ?thesis
    proof (cases st1)
      case (Some e)
      then have "out' = out1" using Suc.prems True ft by simp
      then show ?thesis using ys1 by blast
    next
      case None
      then have "while_unseen passes fuel g root rid seen1 out1 = (out', st)"
        using Suc.prems True ft by simp
      from Suc.IH[OF this] obtain ys2 where "out' = out1 @ ys2"
        "\<forall>y \<in> set ys2. yield_of fuel g root rid g y" by blast
      then show ?thesis using ys1 by (intro exI[of _ "ys1 @ ys2"]) auto
    qed
  qed
qed

lemma table_data_yields:
  "y \<in> set (fst (table_data fuel g root rid)) \<Longrightarrow> yield_of fuel g root rid g y"
proof -
  assume y: "y \<in> set (fst (table_data fuel g root rid))"
  obtain out st where w: "while_unseen fuel fuel g root rid {} [] = (out, st)" by (metis surj_pair)
  from while_unseen_yields[OF w] y w show ?thesis by (auto simp: table_data_def)
qed

lemma ordered_snoc:
  assumes "ordered g out" and "\<And>p. (t, p) \<in> fk_edges g \<Longrightarrow> p \<in> fst ` set out"
  shows "ordered g (out @ [(t, s)])"
  unfolding ordered_def
proof (intro allI impI)
  fix i p
  assume i: "i < length (out @ [(t, s)])" and e: "(fst ((out @ [(t, s)]) ! i), p) \<in> fk_edges g"
  show "p \<in> fst ` set (take i (out @ [(t, s)]))"
  proof (cases "i < length out")
    case True
    then show ?thesis using assms(1) e by (auto simp: ordered_def nth_append)
  next
    case False
    then have "i = length out" using i by simp
    then show ?thesis using assms(2) e by (auto simp: nth_append)
  qed
qed

lemma fk_edges_item:
  assumes "is_dict g" and "(t, info) \<in> set g"
  shows "(t, p) \<in> fk_edges g \<longleftrightarrow> p \<in> set (map fst (fks info)) - {t}"
proof -
  have "map_of g t = Some info" using assms by (simp add: is_dict_def)
  then show ?thesis by (auto simp: fk_edges_def)
qed

text \<open>What a pass that ends without an exception keeps.\<close>

lemma for_tables_inv:
  assumes "for_tables fuel g root rid items seen out = ((seen', out'), None)"
    and "set items \<subseteq> set g" and "is_dict g"
    and "seen = fst ` set out" and "distinct (map fst out)" and "ordered g out"
  shows "seen' = fst ` set out' \<and> distinct (map fst out') \<and> ordered g out' \<and>
         seen \<subseteq> seen' \<and> seen' \<subseteq> seen \<union> fst ` set items"
  using assms
proof (induction items arbitrary: seen out)
  case Nil
  then show ?case by auto
next
  case (Cons it items)
  obtain child info where it: "it = (child, info)" by (cases it)
  have sub: "set items \<subseteq> set g" using Cons.prems(2) by simp
  show ?case
  proof (cases "child \<in> seen \<or> \<not> set (map fst (fks info)) - {child} \<subseteq> seen")
    case True
    then have "for_tables fuel g root rid items seen out = ((seen', out'), None)"
      using Cons.prems(1) it by (auto split: if_splits)
    from Cons.IH[OF this sub Cons.prems(3-6)] show ?thesis by auto
  next
    case False
    then have fresh: "child \<notin> seen" and deps: "set (map fst (fks info)) - {child} \<subseteq> seen" by auto
    from Cons.prems(1) it False obtain pk rest where pk: "pks info = pk # rest"
      by (cases "pks info") auto
    from Cons.prems(1) it False pk obtain joins where j: "find_joins fuel child root g None = Inr joins"
      by (cases "find_joins fuel child root g None") auto
    let ?y = "(child, select_statement child root rid pk joins)"
    have rec: "for_tables fuel g root rid items (insert child seen) (out @ [?y]) = ((seen', out'), None)"
      using Cons.prems(1) it False pk j by auto
    have mem: "(child, info) \<in> set g" using Cons.prems(2) it by simp
    have s1: "insert child seen = fst ` set (out @ [?y])" using Cons.prems(4) by auto
    have d1: "distinct (map fst (out @ [?y]))" using Cons.prems(4,5) fresh by auto
    have o1: "ordered g (out @ [?y])"
    proof (rule ordered_snoc[OF Cons.prems(6)])
      fix p assume "(child, p) \<in> fk_edges g"
      then have "p \<in> set (map fst (fks info)) - {child}"
        using fk_edges_item[OF Cons.prems(3) mem] by simp
      then show "p \<in> fst ` set out" using deps Cons.prems(4) by auto
    qed
    from Cons.IH[OF rec sub Cons.prems(3) s1 d1 o1] show ?thesis using it by auto
  qed
qed

lemma for_tables_seen_mono:
  "for_tables fuel g root rid items seen out = ((seen', out'), st) \<Longrightarrow> seen \<subseteq> seen'"
proof (induction items arbitrary: seen out)
  case Nil
  then show ?case by simp
next
  case (Cons it items)
  obtain child info where it: "it = (child, info)" by (cases it)
  show ?case
  proof (cases "child \<in> seen \<or> \<not> set (map fst (fks info)) - {child} \<subseteq> seen")
    case True
    then have "for_tables fuel g root rid items seen out = ((seen', out'), st)"
      using Cons.prems it by (auto split: if_splits)
    from Cons.IH[OF this] show ?thesis .
  next
    case False
    show ?thesis
    proof (cases "pks info")
      case Nil
      then show ?thesis using Cons.prems it False by auto
    next
      case (Cons pk rest)
      show ?thesis
      proof (cases "find_joins fuel child root g None")
        case (Inl e)
        then show ?thesis using Cons.prems it False \<open>pks info = pk # rest\<close> by auto
      next
        case (Inr joins)
        then have "for_tables fuel g root rid items (insert child seen)
           (out @ [(child, select_statement child root rid pk joins)]) = ((seen', out'), st)"
          using Cons.prems it False \<open>pks info = pk # rest\<close> by auto
        from Cons.IH[OF this] show ?thesis by auto
      qed
    qed
  qed
qed

text \<open>A table whose other referenced tables are all seen is seen after the pass.\<close>

lemma for_tables_progress:
  assumes "for_tables fuel g root rid items seen out = ((seen', out'), None)"
    and "(t, info) \<in> set items" and "set (map fst (fks info)) - {t} \<subseteq> seen"
  shows "t \<in> seen'"
  using assms
proof (induction items arbitrary: seen out)
  case Nil
  then show ?case by simp
next
  case (Cons it items)
  obtain child info' where it: "it = (child, info')" by (cases it)
  show ?case
  proof (cases "child \<in> seen \<or> \<not> set (map fst (fks info')) - {child} \<subseteq> seen")
    case True
    then have rec: "for_tables fuel g root rid items seen out = ((seen', out'), None)"
      using Cons.prems(1) it by (auto split: if_splits)
    show ?thesis
    proof (cases "(t, info) = it")
      case True
      then have "t \<in> seen" using \<open>child \<in> seen \<or> \<not> set (map fst (fks info')) - {child} \<subseteq> seen\<close>
          it Cons.prems(3) by auto
      then show ?thesis using for_tables_seen_mono[OF rec] by auto
    next
      case False
      then have "(t, info) \<in> set items" using Cons.prems(2) by auto
      from Cons.IH[OF rec this Cons.prems(3)] show ?thesis .
    qed
  next
    case False
    from Cons.prems(1) it False obtain pk rest where pk: "pks info' = pk # rest"
      by (cases "pks info'") auto
    from Cons.prems(1) it False pk obtain joins where j: "find_joins fuel child root g None = Inr joins"
      by (cases "find_joins fuel child root g None") auto
    have rec: "for_tables fuel g root rid items (insert child seen)
           (out @ [(child, select_statement child root rid pk joins)]) = ((seen', out'), None)"
      using Cons.prems(1) it False pk j by auto
    show ?thesis
    proof (cases "(t, info) = it")
      case True
      then have "t \<in> insert child seen" using it by auto
      then show ?thesis using for_tables_seen_mono[OF rec] by auto
    next
      case False
      then have m: "(t, info) \<in> set items" using Cons.prems(2) by auto
      have "set (map fst (fks info)) - {t} \<subseteq> insert child seen" using Cons.prems(3) by auto
      from Cons.IH[OF rec m this] show ?thesis .
    qed
  qed
qed

lemma for_tables_no_error:
  assumes "\<And>t info. (t, info) \<in> set items \<Longrightarrow>
             pks info \<noteq> [] \<and> (\<exists>res. find_joins fuel t root g None = Inr res)"
  shows "snd (for_tables fuel g root rid items seen out) = None"
  using assms
proof (induction items arbitrary: seen out)
  case Nil
  then show ?case by simp
next
  case (Cons it items)
  obtain child info where it: "it = (child, info)" by (cases it)
  have rest: "\<And>t info. (t, info) \<in> set items \<Longrightarrow>
             pks info \<noteq> [] \<and> (\<exists>res. find_joins fuel t root g None = Inr res)"
    using Cons.prems by auto
  from Cons.prems[of child info] it obtain pk ps res where
    "pks info = pk # ps" "find_joins fuel child root g None = Inr res"
    by (cases "pks info") auto
  then show ?case using it Cons.IH[OF rest] by auto
qed

lemma fk_edges_keys:
  assumes "closed_graph g" and "(t, p) \<in> fk_edges g"
  shows "t \<in> fst ` set g \<and> p \<in> fst ` set g"
proof -
  from assms(2) obtain info where info: "map_of g t = Some info" "p \<in> fst ` set (fks info)"
    by (auto simp: fk_edges_def)
  then have mem: "(t, info) \<in> set g" by (auto dest: map_of_SomeD)
  from info(2) obtain columns where "(p, columns) \<in> set (fks info)" by auto
  with assms(1) mem have "p \<in> fst ` set g" by (fastforce simp: closed_graph_def)
  moreover have "t \<in> fst ` set g" using mem by (metis fst_conv image_eqI)
  ultimately show ?thesis by simp
qed

lemma finite_fk_edges: "closed_graph g \<Longrightarrow> finite (fk_edges g)"
proof -
  assume c: "closed_graph g"
  have "fk_edges g \<subseteq> fst ` set g \<times> fst ` set g" using fk_edges_keys[OF c] by auto
  then show ?thesis by (rule finite_subset) simp
qed

lemma minimal_unseen:
  assumes "closed_graph g" and "acyclic (fk_edges g)" and "t0 \<in> fst ` set g" and "t0 \<notin> seen"
  shows "\<exists>t. t \<in> fst ` set g \<and> t \<notin> seen \<and> (\<forall>p. (t, p) \<in> fk_edges g \<longrightarrow> p \<in> seen)"
proof -
  have wf: "wf ((fk_edges g)\<inverse>)"
    using finite_fk_edges[OF assms(1)] assms(2) by (rule finite_acyclic_wf_converse)
  have "t0 \<in> fst ` set g - seen" using assms(3,4) by simp
  from wfE_min[OF wf this] obtain z where z: "z \<in> fst ` set g - seen"
    "\<And>y. (y, z) \<in> (fk_edges g)\<inverse> \<Longrightarrow> y \<notin> fst ` set g - seen" by blast
  have "p \<in> seen" if "(z, p) \<in> fk_edges g" for p
    using z(2)[of p] that fk_edges_keys[OF assms(1) that] by auto
  then show ?thesis using z(1) by auto
qed

lemma seen_all:
  assumes "is_dict g" and "seen \<subseteq> fst ` set g" and "\<not> card seen < length g"
  shows "seen = fst ` set g"
proof -
  have "card (fst ` set g) = length g"
    using assms(1) distinct_card[of "map fst g"] by (simp add: is_dict_def)
  then have "card (fst ` set g) \<le> card seen" using assms(3) by simp
  then show ?thesis using assms(2) by (intro card_seteq) auto
qed

lemma while_unseen_terminates:
  assumes dict: "is_dict g" and closed: "closed_graph g" and haspk: "has_pks g"
    and acyc: "acyclic (fk_edges g)"
    and fj: "\<And>t. t \<in> fst ` set g \<Longrightarrow> \<exists>res. find_joins fuel t root g None = Inr res"
  shows "seen = fst ` set out \<Longrightarrow> distinct (map fst out) \<Longrightarrow> ordered g out \<Longrightarrow>
         seen \<subseteq> fst ` set g \<Longrightarrow> length g - card seen \<le> passes \<Longrightarrow>
         \<exists>out'. while_unseen passes fuel g root rid seen out = (out', None) \<and>
                fst ` set out' = fst ` set g \<and> distinct (map fst out') \<and> ordered g out'"
proof (induction passes arbitrary: seen out)
  case 0
  then have "\<not> card seen < length g" by simp
  then show ?case using seen_all[OF dict "0.prems"(4)] "0.prems" by auto
next
  case (Suc passes)
  show ?case
  proof (cases "card seen < length g")
    case False
    then show ?thesis using seen_all[OF dict Suc.prems(4)] Suc.prems by auto
  next
    case True
    have ok: "pks info \<noteq> [] \<and> (\<exists>res. find_joins fuel t root g None = Inr res)"
      if "(t, info) \<in> set g" for t info
    proof -
      have "t \<in> fst ` set g" using that by (metis fst_conv image_eqI)
      then show ?thesis using haspk that fj by (auto simp: has_pks_def)
    qed
    obtain seen1 out1 st1 where ft: "for_tables fuel g root rid g seen out = ((seen1, out1), st1)"
      by (metis surj_pair)
    have "st1 = None" using for_tables_no_error[of g fuel root g rid seen out] ok ft by simp
    then have ft: "for_tables fuel g root rid g seen out = ((seen1, out1), None)" using ft by simp
    from for_tables_inv[OF ft subset_refl dict Suc.prems(1,2,3)]
    have inv: "seen1 = fst ` set out1" "distinct (map fst out1)" "ordered g out1"
      "seen \<subseteq> seen1" "seen1 \<subseteq> seen \<union> fst ` set g" by auto
    have sub1: "seen1 \<subseteq> fst ` set g" using inv(5) Suc.prems(4) by auto
    have "seen \<noteq> fst ` set g"
    proof
      assume "seen = fst ` set g"
      then have "card seen = length g"
        using dict distinct_card[of "map fst g"] by (simp add: is_dict_def)
      then show False using True by simp
    qed
    then obtain t0 where "t0 \<in> fst ` set g" "t0 \<notin> seen" using Suc.prems(4) by auto
    from minimal_unseen[OF closed acyc this] obtain t where
      t: "t \<in> fst ` set g" "t \<notin> seen" "\<forall>p. (t, p) \<in> fk_edges g \<longrightarrow> p \<in> seen" by blast
    from t(1) obtain info where mem: "(t, info) \<in> set g" by auto
    have "set (map fst (fks info)) - {t} \<subseteq> seen"
      using t(3) fk_edges_item[OF dict mem] by auto
    from for_tables_progress[OF ft mem this] have "t \<in> seen1" .
    then have "seen \<subset> seen1" using t(2) inv(4) by auto
    moreover have "finite seen1" using sub1 by (rule finite_subset) simp
    ultimately have "card seen < card seen1" by (rule psubset_card_mono[rotated])
    then have "length g - card seen1 \<le> passes" using Suc.prems(5) True by simp
    from Suc.IH[OF inv(1,2,3) sub1 this] obtain out' where
      "while_unseen passes fuel g root rid seen1 out1 = (out', None)"
      "fst ` set out' = fst ` set g" "distinct (map fst out')" "ordered g out'" by blast
    then show ?thesis using True ft by auto
  qed
qed

lemma while_unseen_complete:
  assumes dict: "is_dict g"
  shows "seen = fst ` set out \<Longrightarrow> distinct (map fst out) \<Longrightarrow> ordered g out \<Longrightarrow>
         seen \<subseteq> fst ` set g \<Longrightarrow>
         while_unseen passes fuel g root rid seen out = (out', None) \<Longrightarrow>
         fst ` set out' = fst ` set g \<and> distinct (map fst out') \<and> ordered g out'"
proof (induction passes arbitrary: seen out)
  case 0
  then have "\<not> card seen < length g" by (auto split: if_splits)
  then show ?case using seen_all[OF dict "0.prems"(4)] "0.prems" by auto
next
  case (Suc passes)
  show ?case
  proof (cases "card seen < length g")
    case False
    then show ?thesis using seen_all[OF dict Suc.prems(4)] Suc.prems by auto
  next
    case True
    obtain seen1 out1 st1 where ft: "for_tables fuel g root rid g seen out = ((seen1, out1), st1)"
      by (metis surj_pair)
    have "st1 = None" using Suc.prems(5) True ft by (cases st1) auto
    then have ft: "for_tables fuel g root rid g seen out = ((seen1, out1), None)" using ft by simp
    from for_tables_inv[OF ft subset_refl dict Suc.prems(1,2,3)]
    have inv: "seen1 = fst ` set out1" "distinct (map fst out1)" "ordered g out1"
      "seen1 \<subseteq> seen \<union> fst ` set g" by auto
    have sub1: "seen1 \<subseteq> fst ` set g" using inv(4) Suc.prems(4) by auto
    have "while_unseen passes fuel g root rid seen1 out1 = (out', None)"
      using Suc.prems(5) True ft by simp
    from Suc.IH[OF inv(1,2,3) sub1 this] show ?thesis .
  qed
qed

lemma table_data_complete:
  assumes "is_dict g" and "table_data fuel g root rid = (out, None)"
  shows "fst ` set out = fst ` set g \<and> distinct (map fst out) \<and> ordered g out"
  by (rule while_unseen_complete[OF assms(1), of "{}" "[]" fuel fuel root rid])
     (use assms(2) in \<open>auto simp: table_data_def ordered_def\<close>)

lemma complete_closed:
  assumes "is_dict g" and "fst ` set out = fst ` set g" and "ordered g out"
  shows "closed_graph g"
  unfolding closed_graph_def
proof (intro ballI, clarify)
  fix t info p columns
  assume mem: "(t, info) \<in> set g" and e: "(p, columns) \<in> set (fks info)"
  have t: "t \<in> fst ` set g" using mem by (metis fst_conv image_eqI)
  show "p \<in> fst ` set g"
  proof (cases "p = t")
    case True
    then show ?thesis using t by simp
  next
    case False
    have "p \<in> set (map fst (fks info))" using e by (metis fst_conv image_eqI set_map)
    then have edge: "(t, p) \<in> fk_edges g" using fk_edges_item[OF assms(1) mem] False by simp
    from t assms(2) have "t \<in> set (map fst out)" by simp
    then obtain i where i: "i < length out" "fst (out ! i) = t"
      by (auto simp: in_set_conv_nth)
    then have "p \<in> fst ` set (take i out)" using assms(3) edge by (auto simp: ordered_def)
    then have "p \<in> fst ` set out" using set_take_subset[of i out] by auto
    then show ?thesis using assms(2) by simp
  qed
qed

lemma table_data_completes:
  assumes "is_dict g" and "closed_graph g" and "has_pks g" and "acyclic (fk_edges g)"
  shows "\<exists>N. \<forall>fuel\<ge>N. \<forall>rid. \<exists>out. table_data fuel g root rid = (out, None) \<and>
            fst ` set out = fst ` set g \<and> distinct (map fst out) \<and> ordered g out"
proof -
  have nn: "acyclic (nn_edges g)" using assms(4) by (rule acyclic_nn_edges)
  have "\<exists>M. \<forall>t \<in> set (map fst g). \<forall>n\<ge>M. \<exists>res. find_joins n t root g None = Inr res"
  proof (rule bound_all)
    fix t assume "t \<in> set (map fst g)"
    then have "t \<in> fst ` set g" by simp
    from find_joins_returns[OF assms(2) nn this]
    show "\<exists>N. \<forall>n\<ge>N. \<exists>res. find_joins n t root g None = Inr res" .
  qed
  then obtain M where M: "\<forall>t \<in> set (map fst g). \<forall>n\<ge>M. \<exists>res. find_joins n t root g None = Inr res" ..
  have "\<exists>out. table_data fuel g root rid = (out, None) \<and>
            fst ` set out = fst ` set g \<and> distinct (map fst out) \<and> ordered g out"
    if fuel: "max M (length g) \<le> fuel" for fuel rid
  proof -
    have fj: "\<exists>res. find_joins fuel t root g None = Inr res" if "t \<in> fst ` set g" for t
    proof -
      have "t \<in> set (map fst g)" "M \<le> fuel" using that fuel by simp_all
      then show ?thesis using M by blast
    qed
    have "\<exists>out'. while_unseen fuel fuel g root rid {} [] = (out', None) \<and>
                fst ` set out' = fst ` set g \<and> distinct (map fst out') \<and> ordered g out'"
      by (rule while_unseen_terminates[OF assms fj]) (use fuel in \<open>auto simp: ordered_def\<close>)
    then show ?thesis by (simp add: table_data_def)
  qed
  then show ?thesis by blast
qed

lemma complete_has_pks:
  assumes "is_dict g" and "table_data fuel g root rid = (out, None)"
  shows "has_pks g"
  unfolding has_pks_def
proof (intro ballI, clarify)
  fix t info assume mem: "(t, info) \<in> set g" and e: "pks info = []"
  have "t \<in> fst ` set g" using mem by (metis fst_conv image_eqI)
  then have "t \<in> fst ` set out" using table_data_complete[OF assms] by simp
  then obtain s where "(t, s) \<in> set (fst (table_data fuel g root rid))"
    using assms(2) by auto
  from table_data_yields[OF this] obtain info' pk rest where
    "(t, info') \<in> set g" "pks info' = pk # rest" by (auto simp: yield_of_def)
  moreover have "map_of g t = Some info" using assms(1) mem by (simp add: is_dict_def)
  ultimately have "info' = info" using assms(1) by (simp add: is_dict_def)
  then show False using e \<open>pks info' = pk # rest\<close> by simp
qed

lemma complete_acyclic:
  assumes "fst ` set out = fst ` set g" and "distinct (map fst out)" and "ordered g out"
  shows "acyclic (fk_edges g)"
proof (rule acyclic_rankI)
  let ?f = "\<lambda>x. (THE i. i < length out \<and> fst (out ! i) = x)"
  have pos: "?f (fst (out ! i)) = i" if "i < length out" for i
  proof (rule the_equality)
    show "i < length out \<and> fst (out ! i) = fst (out ! i)" using that by simp
  next
    fix j assume j: "j < length out \<and> fst (out ! j) = fst (out ! i)"
    then have "map fst out ! j = map fst out ! i" using that by simp
    moreover have "j < length (map fst out)" "i < length (map fst out)" using j that by simp_all
    ultimately show "j = i" using nth_eq_iff_index_eq[OF assms(2)] by blast
  qed
  fix t p assume e: "(t, p) \<in> fk_edges g"
  then have "map_of g t \<noteq> None" by (auto simp: fk_edges_def)
  then have "t \<in> fst ` set g" by (simp add: map_of_eq_None_iff)
  then have "t \<in> set (map fst out)" using assms(1) by simp
  then obtain i where i: "i < length out" "fst (out ! i) = t" by (auto simp: in_set_conv_nth)
  then have "p \<in> fst ` set (take i out)" using assms(3) e by (auto simp: ordered_def)
  then obtain j where j: "j < length (take i out)" "fst (take i out ! j) = p"
    by (auto simp: in_set_conv_nth)
  then have j': "j < i" "j < length out" "fst (out ! j) = p" using i(1) by auto
  show "?f p < ?f t" using pos[OF i(1)] pos[OF j'(2)] i(2) j'(1,3) by simp
qed


section \<open>The statements that table\_data yields\<close>

lemma shop_dict: "is_dict shop_graph"
  by (simp add: is_dict_def shop_graph_def)

lemma shop_has_pks: "has_pks shop_graph"
  by (simp add: has_pks_def shop_graph_def)

lemma shop_table_data:
  "table_data 3 shop_graph ''order'' ''42'' =
     ([(''order'', ''SELECT * FROM order WHERE id = 42''),
       (''order_item'',
        ''SELECT order_item.* FROM order_item JOIN order ON order_item.order_id = order.id WHERE order.item_id = 42''),
       (''country'', ''SELECT * FROM country'')], None)"
  by (simp add: table_data_def numeral_3_eq_3 shop_graph_def select_statement_def first_shortest_def)

lemma find_joins_no_chain:
  assumes "find_joins fuel t r g None = Inr joins" and "\<nexists>c. join_chain g t r c"
  shows "hops_of joins = []"
proof (cases "t = r")
  case True
  then show ?thesis using assms(1) by (cases fuel) auto
next
  case False
  then have "find_joins fuel t r g (Some []) = Inr joins"
    using assms(1) by (simp add: find_joins_None_path)
  from find_joins_sound[OF this] False assms(2) show ?thesis by auto
qed

lemma view_build_graph: "build_graph view_table_rows view_fk_rows None = Inr view_graph"
  by (simp add: build_graph_def view_table_rows_def view_fk_rows_def view_graph_def in_skip_def
      setdefault_append_def)

lemma view_acyclic: "acyclic (fk_edges view_graph)"
proof (rule acyclic_rankI)
  fix t p
  assume "(t, p) \<in> fk_edges view_graph"
  then show "(if p = ''a'' then 1 else 0) < (if t = ''a'' then 1 else (0::nat))"
    by (auto simp: fk_edges_def view_graph_def split: if_splits)
qed

lemma view_while_unseen:
  "while_unseen passes fuel view_graph root rid {} [] = ([], Some OutOfFuel)"
  by (induction passes) (simp_all add: view_graph_def)

text \<open>
  Claim C3, as the code has it. Let the graph be a dict. If every table referenced by a
  foreign key is a key of the graph, every table has a primary-key column and the
  foreign-key relation between distinct tables is acyclic, then the loop of \<open>table_data\<close>
  ends, given enough fuel, without an exception; it has yielded every table of the graph
  exactly once; and every table comes after all the other tables into which it holds a
  foreign key. On every other graph the loop does not run to its end, whatever the fuel.
\<close>

theorem table_data_yields_every_table_once:
  assumes "is_dict g"
  shows "(closed_graph g \<and> has_pks g \<and> acyclic (fk_edges g) \<longrightarrow>
            (\<exists>N. \<forall>fuel\<ge>N. \<exists>out. table_data fuel g root rid = (out, None) \<and>
                distinct (map fst out) \<and> set (map fst out) = set (map fst g) \<and>
                (\<forall>i<length out. \<forall>p. (fst (out ! i), p) \<in> fk_edges g \<longrightarrow> yielded_before out i p))) \<and>
         (\<not> (closed_graph g \<and> has_pks g \<and> acyclic (fk_edges g)) \<longrightarrow>
            (\<forall>fuel. snd (table_data fuel g root rid) \<noteq> None))"
proof
  show "closed_graph g \<and> has_pks g \<and> acyclic (fk_edges g) \<longrightarrow>
            (\<exists>N. \<forall>fuel\<ge>N. \<exists>out. table_data fuel g root rid = (out, None) \<and>
                distinct (map fst out) \<and> set (map fst out) = set (map fst g) \<and>
                (\<forall>i<length out. \<forall>p. (fst (out ! i), p) \<in> fk_edges g \<longrightarrow> yielded_before out i p))"
  proof
    assume a: "closed_graph g \<and> has_pks g \<and> acyclic (fk_edges g)"
    then have c: "closed_graph g" and h: "has_pks g" and ac: "acyclic (fk_edges g)" by auto
    from table_data_completes[OF assms c h ac, of root] obtain N where
      N: "\<forall>fuel\<ge>N. \<forall>rid. \<exists>out. table_data fuel g root rid = (out, None) \<and>
            fst ` set out = fst ` set g \<and> distinct (map fst out) \<and> ordered g out" ..
    have "\<exists>out. table_data fuel g root rid = (out, None) \<and>
            distinct (map fst out) \<and> set (map fst out) = set (map fst g) \<and>
            (\<forall>i<length out. \<forall>p. (fst (out ! i), p) \<in> fk_edges g \<longrightarrow> yielded_before out i p)"
      if "N \<le> fuel" for fuel
    proof -
      from N[rule_format, OF that, of rid] obtain out where
        "table_data fuel g root rid = (out, None)" "fst ` set out = fst ` set g"
        "distinct (map fst out)" "ordered g out" by blast
      then show ?thesis by (auto simp: ordered_def yielded_before_def)
    qed
    then show "\<exists>N. \<forall>fuel\<ge>N. \<exists>out. table_data fuel g root rid = (out, None) \<and>
                distinct (map fst out) \<and> set (map fst out) = set (map fst g) \<and>
                (\<forall>i<length out. \<forall>p. (fst (out ! i), p) \<in> fk_edges g \<longrightarrow> yielded_before out i p)"
      by blast
  qed
next
  show "\<not> (closed_graph g \<and> has_pks g \<and> acyclic (fk_edges g)) \<longrightarrow>
            (\<forall>fuel. snd (table_data fuel g root rid) \<noteq> None)"
  proof (intro impI allI notI)
    fix fuel
    assume n: "\<not> (closed_graph g \<and> has_pks g \<and> acyclic (fk_edges g))"
      and s: "snd (table_data fuel g root rid) = None"
    then obtain out where t: "table_data fuel g root rid = (out, None)" by (metis prod.collapse)
    from table_data_complete[OF assms t]
    have o: "fst ` set out = fst ` set g" "distinct (map fst out)" "ordered g out" by auto
    have "closed_graph g" using complete_closed[OF assms o(1,3)] .
    moreover have "has_pks g" using complete_has_pks[OF assms t] .
    moreover have "acyclic (fk_edges g)" using complete_acyclic[OF o] .
    ultimately show False using n by simp
  qed
qed

theorem table_data_yields_every_table_once_witness:
  "is_dict shop_graph \<and> closed_graph shop_graph \<and> has_pks shop_graph \<and>
   acyclic (fk_edges shop_graph) \<and>
   map fst (fst (table_data 3 shop_graph ''order'' ''42'')) = [''order'', ''order_item'', ''country''] \<and>
   (\<exists>N. \<forall>fuel\<ge>N. \<exists>out. table_data fuel shop_graph ''order'' ''42'' = (out, None) \<and>
        distinct (map fst out) \<and> set (map fst out) = set (map fst shop_graph) \<and>
        (\<forall>i<length out. \<forall>p. (fst (out ! i), p) \<in> fk_edges shop_graph \<longrightarrow> yielded_before out i p)) \<and>
   is_dict view_graph \<and> \<not> closed_graph view_graph \<and>
   (\<forall>fuel. snd (table_data fuel view_graph ''a'' ''1'') \<noteq> None)"
proof -
  have d: "is_dict view_graph" by (simp add: is_dict_def view_graph_def)
  have nc: "\<not> closed_graph view_graph" by (simp add: closed_graph_def view_graph_def)
  from table_data_yields_every_table_once[OF shop_dict, of "''order''" "''42''"]
       table_data_yields_every_table_once[OF d, of "''a''" "''1''"]
       shop_dict shop_closed shop_has_pks shop_acyclic shop_table_data d nc
  show ?thesis by simp
qed

text \<open>
  Acyclicity alone is not enough. \<open>build_graph\<close> returns \<open>view_graph\<close>, in which \<open>a\<close>
  references a table that is not a key; its foreign-key relation is acyclic, and the loop
  never finds \<open>a\<close> resolved: it yields nothing and does not end.
\<close>

theorem table_data_dangling_counterexample:
  "build_graph view_table_rows view_fk_rows None = Inr view_graph \<and>
   acyclic (fk_edges view_graph) \<and>
   (\<forall>fuel. table_data fuel view_graph ''a'' ''1'' = ([], Some OutOfFuel))"
  using view_build_graph view_acyclic by (simp add: table_data_def view_while_unseen)

text \<open>
  Claim C4, at the schema of the scenario with primary key \<open>item_id\<close> on \<open>order_item\<close>.
  The table \<open>order_item\<close> has the join path \<open>[(order, order_id, id)]\<close> to the root \<open>order\<close>,
  whose primary key is \<open>id\<close>. The statement yielded for it selects its own columns and
  joins \<open>order\<close>, but its \<^verbatim>\<open>WHERE\<close> clause names \<open>order.item_id\<close>: the column is the first
  primary-key column of the table being copied (\<^verbatim>\<open>pk = info["pks"][0]\<close> with \<open>info\<close> the
  entry of \<open>child\<close>), not that of the root.
\<close>

theorem join_statement_filters_on_child_pk:
  "(''order_item'',
    ''SELECT order_item.* FROM order_item JOIN order ON order_item.order_id = order.id WHERE order.item_id = 42'')
     \<in> set (fst (table_data 3 shop_graph ''order'' ''42'')) \<and>
   map_of shop_graph ''order'' = Some \<lparr>pks = [''id''], fks = []\<rparr> \<and>
   join_chain shop_graph ''order_item'' ''order'' [(''order'', ''order_id'', ''id'')]"
  by (simp add: shop_table_data) (simp add: shop_graph_def is_hop_def)

text \<open>
  Claim C6. Whatever \<open>table_data\<close> yields for a table that is not the root and from which
  no chain of non-nullable hops leads to the root is the statement \<^verbatim>\<open>SELECT * FROM\<close>
  followed by the name of the table, with no join and no \<^verbatim>\<open>WHERE\<close> clause.
\<close>

theorem unrelated_table_full_selection:
  assumes "(t, s) \<in> set (fst (table_data fuel g root rid))"
    and "t \<noteq> root" and "\<nexists>c. join_chain g t root c"
  shows "s = ''SELECT * FROM '' @ t"
proof -
  from table_data_yields[OF assms(1)] obtain pk joins where
    j: "find_joins fuel t root g None = Inr joins" and s: "s = select_statement t root rid pk joins"
    by (auto simp: yield_of_def)
  have "hops_of joins = []" using find_joins_no_chain[OF j assms(3)] .
  then show ?thesis using s assms(2) by (simp add: select_statement_def)
qed

theorem unrelated_table_full_selection_witness:
  "(''country'', ''SELECT * FROM country'') \<in> set (fst (table_data 3 shop_graph ''order'' ''42'')) \<and>
   ''country'' \<noteq> ''order'' \<and> (\<nexists>c. join_chain shop_graph ''country'' ''order'' c) \<and>
   ''SELECT * FROM country'' = ''SELECT * FROM '' @ ''country''"
proof -
  have m: "(''country'', ''SELECT * FROM country'') \<in> set (fst (table_data 3 shop_graph ''order'' ''42''))"
    by (simp add: shop_table_data)
  have ne: "''country'' \<noteq> ''order''" by simp
  from unrelated_table_full_selection[OF m ne shop_country_no_chain] m ne shop_country_no_chain
  show ?thesis by simp
qed

text \<open>
  Claim C7. Whatever \<open>table_data\<close> yields for the root table itself is the statement
  \<^verbatim>\<open>SELECT * FROM root WHERE pk = root_id\<close>, where \<open>pk\<close> is the first primary-key column of
  the root's entry in the graph; it is never a join.
\<close>

theorem root_table_statement:
  assumes "(root, s) \<in> set (fst (table_data fuel g root rid))"
    and "is_dict g" and "map_of g root = Some info"
  shows "\<exists>pk rest. pks info = pk # rest \<and>
           s = ''SELECT * FROM '' @ root @ '' WHERE '' @ pk @ '' = '' @ rid"
proof -
  from table_data_yields[OF assms(1)] obtain info' pk rest joins where
    y: "(root, info') \<in> set g" "pks info' = pk # rest"
       "find_joins fuel root root g None = Inr joins"
       "s = select_statement root root rid pk joins"
    by (auto simp: yield_of_def)
  have "map_of g root = Some info'" using assms(2) y(1) by (simp add: is_dict_def)
  then have i: "info' = info" using assms(3) by simp
  have "joins = None" using y(3) by (cases fuel) auto
  then have "s = ''SELECT * FROM '' @ root @ '' WHERE '' @ pk @ '' = '' @ rid"
    using y(4) by (simp add: select_statement_def)
  then show ?thesis using y(2) i by blast
qed

theorem root_table_statement_witness:
  "(''order'', ''SELECT * FROM order WHERE id = 42'') \<in> set (fst (table_data 3 shop_graph ''order'' ''42'')) \<and>
   is_dict shop_graph \<and> map_of shop_graph ''order'' = Some \<lparr>pks = [''id''], fks = []\<rparr> \<and>
   (\<exists>pk rest. pks \<lparr>pks = [''id''], fks = []\<rparr> = pk # rest \<and>
      ''SELECT * FROM order WHERE id = 42'' = ''SELECT * FROM '' @ ''order'' @ '' WHERE '' @ pk @ '' = '' @ ''42'')"
proof -
  have m: "(''order'', ''SELECT * FROM order WHERE id = 42'') \<in> set (fst (table_data 3 shop_graph ''order'' ''42''))"
    by (simp add: shop_table_data)
  have i: "map_of shop_graph ''order'' = Some \<lparr>pks = [''id''], fks = []\<rparr>"
    by (simp add: shop_graph_def)
  from root_table_statement[OF m shop_dict i] m shop_dict i show ?thesis by simp
qed

section \<open>Properties of build\_graph\<close>

lemma map_of_dict_set: "map_of (dict_set d k v) = (map_of d)(k \<mapsto> v)"
  by (induction d k v rule: dict_set.induct) auto

lemma keys_dict_set: "fst ` set (dict_set d k v) = insert k (fst ` set d)"
  by (induction d k v rule: dict_set.induct) auto

lemma map_fst_dict_set: "k \<in> fst ` set d \<Longrightarrow> map fst (dict_set d k v) = map fst d"
  by (induction d k v rule: dict_set.induct) auto

lemma is_dict_dict_set: "is_dict d \<Longrightarrow> is_dict (dict_set d k v)"
  unfolding is_dict_def
proof (induction d k v rule: dict_set.induct)
  case (1 k v)
  then show ?case by simp
next
  case (2 k' v' kvs k v)
  then show ?case using keys_dict_set[of kvs k v] by (auto simp del: image_insert)
qed

lemma map_of_setdefault_append:
  "map_of (setdefault_append d k e) k' =
     (if k' = k then Some ((case map_of d k of None \<Rightarrow> [] | Some es \<Rightarrow> es) @ [e]) else map_of d k')"
  by (auto simp: setdefault_append_def map_of_dict_set split: option.splits)

lemma has_edge_insert:
  assumes "map_of g t0 = Some info"
  shows "has_edge (dict_set g t0 (info\<lparr>fks := setdefault_append (fks info) p0 e0\<rparr>)) t p e \<longleftrightarrow>
           has_edge g t p e \<or> (t = t0 \<and> p = p0 \<and> e = e0)"
  using assms
  by (auto simp: has_edge_def map_of_dict_set map_of_setdefault_append split: option.splits)

lemma map_of_key: "map_of d k \<noteq> None \<longleftrightarrow> k \<in> fst ` set d"
  by (simp add: map_of_eq_None_iff)

lemma fk_pass_Inr:
  "fk_pass skip rows g = Inr g' \<Longrightarrow>
     map fst g' = map fst g \<and>
     (\<forall>t. map_option pks (map_of g' t) = map_option pks (map_of g t)) \<and>
     (\<forall>t p e. has_edge g' t p e \<longleftrightarrow>
        has_edge g t p e \<or>
        (\<exists>row \<in> set rows. selected skip row \<and> table_name row = t \<and> foreign_table_name row = p \<and> e = edge_of row))"
proof (induction rows arbitrary: g)
  case Nil
  then show ?case by simp
next
  case (Cons row rows)
  show ?case
  proof (cases "selected skip row")
    case False
    then have "fk_pass skip rows g = Inr g'" using Cons.prems by (auto simp: selected_def)
    from Cons.IH[OF this] show ?thesis using False by auto
  next
    case True
    from True Cons.prems obtain info where info: "map_of g (table_name row) = Some info"
      by (auto simp: selected_def split: option.splits)
    let ?g1 = "dict_set g (table_name row)
                 (info\<lparr>fks := setdefault_append (fks info) (foreign_table_name row) (edge_of row)\<rparr>)"
    have rec: "fk_pass skip rows ?g1 = Inr g'"
      using True Cons.prems info by (auto simp: selected_def edge_of_def)
    have k: "table_name row \<in> fst ` set g" using info map_of_key[of g "table_name row"] by simp
    have m: "map fst ?g1 = map fst g" using map_fst_dict_set[OF k] .
    have p: "map_option pks (map_of ?g1 t) = map_option pks (map_of g t)" for t
      using info by (auto simp: map_of_dict_set)
    from Cons.IH[OF rec] show ?thesis
      using m p has_edge_insert[OF info] True by auto
  qed
qed

lemma fk_pass_keys: "fk_pass skip rows g = Inr g' \<Longrightarrow> fst ` set g' = fst ` set g"
proof -
  assume "fk_pass skip rows g = Inr g'"
  then have "map fst g' = map fst g" using fk_pass_Inr by blast
  then have "set (map fst g') = set (map fst g)" by simp
  then show ?thesis by simp
qed

lemma fk_pass_Inl:
  "fk_pass skip rows g = Inl e \<longleftrightarrow>
     e = KeyError \<and> (\<exists>row \<in> set rows. selected skip row \<and> table_name row \<notin> fst ` set g)"
proof (induction rows arbitrary: g)
  case Nil
  then show ?case by simp
next
  case (Cons row rows)
  show ?case
  proof (cases "selected skip row")
    case False
    then show ?thesis using Cons.IH[of g] by (auto simp: selected_def)
  next
    case True
    show ?thesis
    proof (cases "map_of g (table_name row)")
      case None
      then have "table_name row \<notin> fst ` set g" using map_of_key[of g "table_name row"] by simp
      then show ?thesis using True None by (auto simp: selected_def)
    next
      case (Some info)
      let ?g1 = "dict_set g (table_name row)
                 (info\<lparr>fks := setdefault_append (fks info) (foreign_table_name row) (edge_of row)\<rparr>)"
      have k: "table_name row \<in> fst ` set g" using Some map_of_key[of g "table_name row"] by simp
      then have "fst ` set ?g1 = fst ` set g" by (auto simp: keys_dict_set simp del: image_insert)
      moreover have "fk_pass skip (row # rows) g = fk_pass skip rows ?g1"
        using True Some by (simp add: selected_def edge_of_def)
      ultimately show ?thesis using Cons.IH[of ?g1] True k by auto
    qed
  qed
qed

lemma table_pass_keys:
  "fst ` set (table_pass skip rows g) = fst ` set g \<union> {n \<in> fst ` set rows. \<not> in_skip skip n}"
proof (induction rows arbitrary: g)
  case Nil
  then show ?case by simp
next
  case (Cons row rows)
  obtain name pk_cols where row: "row = (name, pk_cols)" by (cases row)
  show ?case using Cons.IH row by (auto simp: keys_dict_set)
qed

lemma table_pass_no_edges:
  "(\<And>t p e. \<not> has_edge g t p e) \<Longrightarrow> \<not> has_edge (table_pass skip rows g) t p e"
proof (induction rows arbitrary: g)
  case Nil
  then show ?case by simp
next
  case (Cons row rows)
  obtain name pk_cols where row: "row = (name, pk_cols)" by (cases row)
  have "\<not> has_edge (dict_set g name \<lparr>pks = pk_cols, fks = []\<rparr>) t p e" for t p e
    using Cons.prems[of t p e] by (auto simp: has_edge_def map_of_dict_set split: option.splits)
  then show ?case using Cons.IH Cons.prems row by auto
qed

lemma table_pass_dict: "is_dict g \<Longrightarrow> is_dict (table_pass skip rows g)"
proof (induction rows arbitrary: g)
  case Nil
  then show ?case by simp
next
  case (Cons row rows)
  obtain name pk_cols where row: "row = (name, pk_cols)" by (cases row)
  show ?case using Cons row by (auto simp: is_dict_dict_set)
qed

lemma build_graph_dict: "build_graph trows fkrows skip = Inr g \<Longrightarrow> is_dict g"
proof -
  assume b: "build_graph trows fkrows skip = Inr g"
  have "is_dict (table_pass skip trows [])" by (rule table_pass_dict) (simp add: is_dict_def)
  moreover have "map fst g = map fst (table_pass skip trows [])"
    using b fk_pass_Inr unfolding build_graph_def by blast
  ultimately show ?thesis by (simp add: is_dict_def)
qed

lemma build_graph_keys:
  assumes "build_graph trows fkrows skip = Inr g"
  shows "fst ` set g = {n \<in> fst ` set trows. \<not> in_skip skip n}"
  using assms fk_pass_keys[of skip fkrows "table_pass skip trows []" g]
    table_pass_keys[of skip trows "[]"]
  by (simp add: build_graph_def)

lemma build_graph_has_edge:
  assumes "build_graph trows fkrows skip = Inr g"
  shows "has_edge g t p e \<longleftrightarrow>
           (\<exists>row \<in> set fkrows. selected skip row \<and> table_name row = t \<and>
               foreign_table_name row = p \<and> e = edge_of row)"
proof -
  let ?g0 = "table_pass skip trows []"
  have ne: "\<not> has_edge ?g0 t p e"
    by (rule table_pass_no_edges) (simp add: has_edge_def)
  have b: "fk_pass skip fkrows ?g0 = Inr g" using assms by (simp add: build_graph_def)
  have "has_edge g t p e \<longleftrightarrow> has_edge ?g0 t p e \<or>
        (\<exists>row \<in> set fkrows. selected skip row \<and> table_name row = t \<and>
            foreign_table_name row = p \<and> e = edge_of row)"
    using fk_pass_Inr[OF b] by (elim conjE allE[of _ t] allE[of _ p] allE[of _ e])
  then show ?thesis using ne by simp
qed

lemma shop_build_graph: "build_graph shop_table_rows shop_fk_rows None = Inr shop_graph"
  by (simp add: build_graph_def shop_table_rows_def shop_fk_rows_def shop_graph_def in_skip_def
      setdefault_append_def)

lemma has_edge_closed:
  assumes "closed_graph g" and "has_edge g t p e"
  shows "p \<in> fst ` set g"
proof -
  from assms(2) obtain info es where "map_of g t = Some info" "map_of (fks info) p = Some es"
    by (auto simp: has_edge_def split: option.splits)
  then have "(t, info) \<in> set g" "(p, es) \<in> set (fks info)" by (auto dest: map_of_SomeD)
  then show ?thesis using assms(1) by (fastforce simp: closed_graph_def)
qed

lemma set_dict_set: "set (dict_set d k v) \<subseteq> insert (k, v) (set d)"
  by (induction d k v rule: dict_set.induct) auto

lemma is_dict_setdefault_append: "is_dict d \<Longrightarrow> is_dict (setdefault_append d k e)"
  by (simp add: setdefault_append_def is_dict_dict_set split: option.splits)

lemma fk_pass_fks_dict:
  "fk_pass skip rows g = Inr g' \<Longrightarrow> (\<forall>(t, info) \<in> set g. is_dict (fks info)) \<Longrightarrow>
     (\<forall>(t, info) \<in> set g'. is_dict (fks info))"
proof (induction rows arbitrary: g)
  case Nil
  then show ?case by simp
next
  case (Cons row rows)
  show ?case
  proof (cases "selected skip row")
    case False
    then have "fk_pass skip rows g = Inr g'" using Cons.prems(1) by (auto simp: selected_def)
    from Cons.IH[OF this Cons.prems(2)] show ?thesis .
  next
    case True
    from True Cons.prems(1) obtain info where info: "map_of g (table_name row) = Some info"
      by (auto simp: selected_def split: option.splits)
    let ?info1 = "info\<lparr>fks := setdefault_append (fks info) (foreign_table_name row) (edge_of row)\<rparr>"
    let ?g1 = "dict_set g (table_name row) ?info1"
    have rec: "fk_pass skip rows ?g1 = Inr g'"
      using True Cons.prems(1) info by (auto simp: selected_def edge_of_def)
    have "(table_name row, info) \<in> set g" using info by (rule map_of_SomeD)
    then have "is_dict (fks info)" using Cons.prems(2) by auto
    then have "is_dict (fks ?info1)" by (simp add: is_dict_setdefault_append)
    then have "\<forall>(t, i) \<in> set ?g1. is_dict (fks i)"
      using set_dict_set[of g "table_name row" ?info1] Cons.prems(2) by auto
    from Cons.IH[OF rec this] show ?thesis .
  qed
qed

lemma table_pass_fks_dict:
  "(\<forall>(t, info) \<in> set g. is_dict (fks info)) \<Longrightarrow>
     (\<forall>(t, info) \<in> set (table_pass skip rows g). is_dict (fks info))"
proof (induction rows arbitrary: g)
  case Nil
  then show ?case by simp
next
  case (Cons row rows)
  obtain name pk_cols where row: "row = (name, pk_cols)" by (cases row)
  have "\<forall>(t, i) \<in> set (dict_set g name \<lparr>pks = pk_cols, fks = []\<rparr>). is_dict (fks i)"
    using set_dict_set[of g name "\<lparr>pks = pk_cols, fks = []\<rparr>"] Cons.prems
    by (auto simp: is_dict_def)
  then show ?case using Cons row by auto
qed

lemma build_graph_fks_dict:
  assumes "build_graph trows fkrows skip = Inr g"
  shows "\<forall>(t, info) \<in> set g. is_dict (fks info)"
proof -
  have "\<forall>(t, info) \<in> set (table_pass skip trows []). is_dict (fks info)"
    by (rule table_pass_fks_dict) simp
  then show ?thesis using fk_pass_fks_dict assms unfolding build_graph_def by blast
qed

section \<open>The graph that build\_graph returns\<close>

text \<open>
  Claim C5, as the code has it. \<open>build_graph\<close> tests neither table of a foreign-key row
  for being a node. When it returns, the graph is a dict of dicts whose keys are the table
  rows that are not excluded, and its edges are exactly the foreign-key rows that touch no excluded
  table: a row whose referenced table has no table row is kept, not dropped. Hence the
  owner of every edge is a key of the graph, no edge touches an excluded table, and the
  target of an edge is a key of the graph whenever it has a table row.
\<close>

theorem build_graph_edges:
  assumes "build_graph trows fkrows skip = Inr g"
  shows "is_dict g \<and> (\<forall>(t, info) \<in> set g. is_dict (fks info)) \<and>
         fst ` set g = {n \<in> fst ` set trows. \<not> in_skip skip n} \<and>
         (\<forall>t p e. has_edge g t p e \<longleftrightarrow>
             (\<exists>row \<in> set fkrows. selected skip row \<and> table_name row = t \<and>
                 foreign_table_name row = p \<and> e = edge_of row)) \<and>
         (\<forall>t p e. has_edge g t p e \<longrightarrow>
             t \<in> fst ` set g \<and> \<not> in_skip skip t \<and> \<not> in_skip skip p \<and>
             (p \<in> fst ` set trows \<longrightarrow> p \<in> fst ` set g))"
proof -
  have keys: "fst ` set g = {n \<in> fst ` set trows. \<not> in_skip skip n}"
    using build_graph_keys[OF assms] .
  have "t \<in> fst ` set g \<and> \<not> in_skip skip t \<and> \<not> in_skip skip p \<and>
        (p \<in> fst ` set trows \<longrightarrow> p \<in> fst ` set g)" if "has_edge g t p e" for t p e
  proof -
    from that have "map_of g t \<noteq> None" by (auto simp: has_edge_def split: option.splits)
    then have t: "t \<in> fst ` set g" using map_of_key[of g t] by simp
    from that obtain row where "selected skip row" "table_name row = t" "foreign_table_name row = p"
      using build_graph_has_edge[OF assms] by blast
    then have "\<not> in_skip skip t" "\<not> in_skip skip p" by (auto simp: selected_def)
    then show ?thesis using t keys by auto
  qed
  then show ?thesis
    using build_graph_dict[OF assms] build_graph_fks_dict[OF assms] keys build_graph_has_edge[OF assms]
    by blast
qed

theorem build_graph_edges_witness:
  "build_graph shop_table_rows shop_fk_rows None = Inr shop_graph \<and>
   is_dict shop_graph \<and>
   fst ` set shop_graph = {n \<in> fst ` set shop_table_rows. \<not> in_skip None n} \<and>
   has_edge shop_graph ''order_item'' ''order'' (''order_id'', ''id'', False) \<and>
   ''order'' \<in> fst ` set shop_graph"
proof -
  have e: "has_edge shop_graph ''order_item'' ''order'' (''order_id'', ''id'', False)"
    by (simp add: has_edge_def shop_graph_def)
  have t: "''order'' \<in> fst ` set shop_table_rows" by (simp add: shop_table_rows_def)
  from build_graph_edges[OF shop_build_graph] shop_build_graph e t show ?thesis by blast
qed

text \<open>
  The foreign key of \<open>a\<close> into \<open>v\<close>, a table without a table row, stays in the graph, whose
  edge then points to a table that is not a key.
\<close>

theorem build_graph_keeps_dangling_edge:
  "build_graph view_table_rows view_fk_rows None =
     Inr [(''a'', \<lparr>pks = [''id''], fks = [(''v'', [(''v_id'', ''id'', False)])]\<rparr>)] \<and>
   ''v'' \<notin> fst ` set view_table_rows \<and>
   \<not> closed_graph [(''a'', \<lparr>pks = [''id''], fks = [(''v'', [(''v_id'', ''id'', False)])]\<rparr>)]"
  by (simp add: build_graph_def view_table_rows_def view_fk_rows_def in_skip_def
      setdefault_append_def closed_graph_def)

text \<open>
  Claim C10, as the code has it. \<open>build_graph\<close> raises KeyError exactly when some
  foreign-key row that touches no excluded table (neither its owning table nor the table
  it references is excluded) has an owning table without a table row; otherwise it returns
  a graph.
\<close>

theorem build_graph_KeyError:
  "(build_graph trows fkrows skip = Inl KeyError \<longleftrightarrow>
      (\<exists>row \<in> set fkrows. selected skip row \<and> table_name row \<notin> fst ` set trows)) \<and>
   ((\<exists>g. build_graph trows fkrows skip = Inr g) \<longleftrightarrow>
      (\<forall>row \<in> set fkrows. selected skip row \<longrightarrow> table_name row \<in> fst ` set trows))"
proof -
  let ?g0 = "table_pass skip trows []"
  have keys: "fst ` set ?g0 = {n \<in> fst ` set trows. \<not> in_skip skip n}"
    using table_pass_keys[of skip trows "[]"] by simp
  have k: "table_name row \<notin> fst ` set ?g0 \<longleftrightarrow> table_name row \<notin> fst ` set trows"
    if "selected skip row" for row
    using that keys by (auto simp: selected_def)
  have err: "build_graph trows fkrows skip = Inl e \<longleftrightarrow>
      e = KeyError \<and> (\<exists>row \<in> set fkrows. selected skip row \<and> table_name row \<notin> fst ` set trows)" for e
    using fk_pass_Inl[of skip fkrows ?g0 e] k by (auto simp: build_graph_def)
  have "(\<exists>g. build_graph trows fkrows skip = Inr g) \<longleftrightarrow> \<not> (\<exists>e. build_graph trows fkrows skip = Inl e)"
    by (cases "build_graph trows fkrows skip") auto
  then show ?thesis using err by auto
qed

theorem build_graph_KeyError_witness:
  "selected None (hd orphan_fk_rows) \<and> table_name (hd orphan_fk_rows) \<notin> fst ` set [(''b'', [''id''])] \<and>
   build_graph [(''b'', [''id''])] orphan_fk_rows None = Inl KeyError \<and>
   build_graph [(''a'', [''id'']), (''b'', [''id''])] orphan_fk_rows None =
     Inr [(''a'', \<lparr>pks = [''id''], fks = [(''b'', [(''b_id'', ''id'', False)])]\<rparr>),
          (''b'', \<lparr>pks = [''id''], fks = []\<rparr>)]"
proof -
  have s: "selected None (hd orphan_fk_rows)" by (simp add: selected_def in_skip_def)
  have n: "table_name (hd orphan_fk_rows) \<notin> fst ` set [(''b'', [''id''])]"
    by (simp add: orphan_fk_rows_def)
  have m: "hd orphan_fk_rows \<in> set orphan_fk_rows" by (simp add: orphan_fk_rows_def)
  have "build_graph [(''b'', [''id''])] orphan_fk_rows None = Inl KeyError"
    using build_graph_KeyError[of "[(''b'', [''id''])]" orphan_fk_rows None] s n m by blast
  moreover have "build_graph [(''a'', [''id'']), (''b'', [''id''])] orphan_fk_rows None =
     Inr [(''a'', \<lparr>pks = [''id''], fks = [(''b'', [(''b_id'', ''id'', False)])]\<rparr>),
          (''b'', \<lparr>pks = [''id''], fks = []\<rparr>)]"
    by (simp add: build_graph_def orphan_fk_rows_def in_skip_def setdefault_append_def)
  ultimately show ?thesis using s n by simp
qed

text \<open>
  A foreign-key row whose owning table \<open>a\<close> has no table row and is not excluded, while the
  table \<open>b\<close> it references is excluded: the row is passed over before the lookup, and
  \<open>build_graph\<close> returns.
\<close>

theorem build_graph_skips_row_of_excluded_target:
  "table_name (hd orphan_fk_rows) \<notin> fst ` set ([] :: table_row list) \<and>
   \<not> in_skip (Some {''b''}) (table_name (hd orphan_fk_rows)) \<and>
   build_graph [] orphan_fk_rows (Some {''b''}) = Inr []"
  by (simp add: build_graph_def orphan_fk_rows_def in_skip_def)

section \<open>Restoring the foreign keys\<close>

text \<open>
  Claim C8. Let the graph be built from the rows of the two metadata queries, with no
  table excluded, as \<open>explode\<close> builds it, and let \<open>table_data\<close> have run to its end, so that
  every table it yielded has been cloned into the destination schema. Then the statements
  of \<open>restore_keys\<close> are, in the order of the foreign-key rows, one
  \<^verbatim>\<open>ALTER TABLE dest.table ADD CONSTRAINT name FOREIGN KEY (col) REFERENCES dest.target (target_col)\<close>
  for exactly the rows whose owning table and referenced table were both yielded, each
  with the constraint name, column, target table and target column of its row.
\<close>

theorem restore_keys_statements:
  assumes "build_graph trows fkrows None = Inr g" and "table_data fuel g root rid = (out, None)"
  shows "restore_keys sch fkrows =
           map (\<lambda>row. ''ALTER TABLE '' @ sch @ ''.'' @ table_name row
                       @ '' ADD CONSTRAINT '' @ constraint_name row
                       @ '' FOREIGN KEY ('' @ column_name row
                       @ '') REFERENCES '' @ sch @ ''.'' @ foreign_table_name row
                       @ '' ('' @ foreign_column_name row @ '')'')
               (filter (\<lambda>row. table_name row \<in> fst ` set out \<and>
                               foreign_table_name row \<in> fst ` set out) fkrows)"
proof -
  have dict: "is_dict g" using build_graph_dict[OF assms(1)] .
  from table_data_complete[OF dict assms(2)]
  have out: "fst ` set out = fst ` set g" and ord: "ordered g out" by auto
  have closed: "closed_graph g" using complete_closed[OF dict out ord] .
  have "table_name row \<in> fst ` set out \<and> foreign_table_name row \<in> fst ` set out"
    if "row \<in> set fkrows" for row
  proof -
    have sel: "selected None row" by (simp add: selected_def in_skip_def)
    then have e: "has_edge g (table_name row) (foreign_table_name row) (edge_of row)"
      using build_graph_has_edge[OF assms(1)] that by blast
    then have "map_of g (table_name row) \<noteq> None" by (auto simp: has_edge_def split: option.splits)
    then have "table_name row \<in> fst ` set g" using map_of_key[of g "table_name row"] by simp
    then show ?thesis using has_edge_closed[OF closed e] out by simp
  qed
  then have "filter (\<lambda>row. table_name row \<in> fst ` set out \<and>
                               foreign_table_name row \<in> fst ` set out) fkrows = fkrows"
    by (simp add: filter_id_conv)
  then show ?thesis by (simp add: restore_keys_def)
qed

theorem restore_keys_statements_witness:
  "build_graph shop_table_rows shop_fk_rows None = Inr shop_graph \<and>
   snd (table_data 3 shop_graph ''order'' ''42'') = None \<and>
   restore_keys ''order_42'' shop_fk_rows =
     [''ALTER TABLE order_42.order_item ADD CONSTRAINT order_item_order_id_fkey FOREIGN KEY (order_id) REFERENCES order_42.order (id)'']"
proof -
  have t: "table_data 3 shop_graph ''order'' ''42'' = (fst (table_data 3 shop_graph ''order'' ''42''), None)"
    by (simp add: shop_table_data)
  from restore_keys_statements[OF shop_build_graph t, of "''order_42''"] shop_build_graph
  show ?thesis by (simp add: shop_table_data shop_fk_rows_def)
qed
section \<open>The warning of explode and the run after it\<close>

























end
